theory Spec2Isabelle
  imports Complex_Main "HOL-Library.Multiset"
begin

section \<open>The double-ended list (class \<open>List\<close> of list.js)\<close>

text \<open>
  A slot of a JavaScript array reads as \<open>undefined\<close> when nothing was ever stored under
  that key, as \<open>null\<close> after \<open>fill(null)\<close> or after \<open>pop\<close> blanked it, and as the stored
  item otherwise.
\<close>

datatype 'a jsval = Undefined | Null | Item 'a

text \<open>
  The class \<open>List\<close>. The record is called \<open>RingSequence\<close> (the name the specification
  gives the class) because \<open>List\<close> is the name of a HOL theory; the field \<open>length\<close> is
  \<open>lengthL\<close> for the same reason, and \<open>_capacity\<close>, \<open>_buffer\<close>, \<open>_head\<close>, \<open>_tail\<close>
  lose their underscore.

  \<open>buffer\<close> is the JavaScript array \<open>_buffer\<close>. The class only ever reads and writes it by
  key (\<open>this._buffer[j]\<close>), never asks for its \<open>length\<close>, and JavaScript stores a value
  under any key, also a negative one or one past the end, and reads \<open>undefined\<close> under a
  key that holds nothing. So the array is the function from keys to slots.
\<close>

record 'a RingSequence =
  initialCapacity :: int
  capacity :: int
  buffer :: "int \<Rightarrow> 'a jsval"
  head :: int
  tail :: int
  lengthL :: int

text \<open>\<open>new Array(n).fill(null)\<close>: keys \<open>0 .. n - 1\<close> hold \<open>null\<close>, no other key holds anything.\<close>

definition new_Array_fill_null :: "int \<Rightarrow> (int \<Rightarrow> 'a jsval)" where
  "new_Array_fill_null n = (\<lambda>j. if 0 \<le> j \<and> j < n then Null else Undefined)"

text \<open>
  The constructor. Its argument is a natural number: \<open>new Array\<close> raises a RangeError on
  anything else. \<open>Math.floor(initialCapacity / 2)\<close> is \<open>div\<close> on integers.
\<close>

definition constructor :: "nat \<Rightarrow> 'a RingSequence" where
  "constructor c =
     \<lparr> initialCapacity = int c,
       capacity = int c,
       buffer = new_Array_fill_null (int c),
       head = int c div 2,
       tail = int c div 2 - 1,
       lengthL = 0 \<rparr>"

text \<open>
  \<open>List.create\<close> wraps the object in a Proxy that sends a property whose name is all
  digits to \<open>get\<close> and every other property to the object itself; the default capacity
  is 16.
\<close>

definition create :: "nat option \<Rightarrow> 'a RingSequence" where
  "create initialCapacity' =
     constructor (case initialCapacity' of None \<Rightarrow> 16 | Some c \<Rightarrow> c)"

text \<open>The copy loop of \<open>_resize\<close>: \<open>for (i = 0; i < this.length; i++) newBuffer[newHead + i] = this._buffer[this._head + i]\<close>.\<close>

fun copy_elements ::
  "(int \<Rightarrow> 'a jsval) \<Rightarrow> int \<Rightarrow> int \<Rightarrow> nat \<Rightarrow> (int \<Rightarrow> 'a jsval) \<Rightarrow> (int \<Rightarrow> 'a jsval)" where
  "copy_elements old oldHead newHead 0 newBuffer = newBuffer"
| "copy_elements old oldHead newHead (Suc n) newBuffer =
     (copy_elements old oldHead newHead n newBuffer)
       (newHead + int n := old (oldHead + int n))"

definition resize :: "'a RingSequence \<Rightarrow> 'a RingSequence" where
  "resize l =
     (let newCapacity = capacity l * 2;
          newBuffer = new_Array_fill_null newCapacity;
          newHead = (newCapacity - lengthL l) div 2;
          newBuffer = copy_elements (buffer l) (head l) newHead (nat (lengthL l)) newBuffer
      in l\<lparr> buffer := newBuffer,
            head := newHead,
            tail := newHead + lengthL l - 1,
            capacity := newCapacity \<rparr>)"

text \<open>Each method returns its result and the object after the call.\<close>

definition prepend :: "'a \<Rightarrow> 'a RingSequence \<Rightarrow> int \<times> 'a RingSequence" where
  "prepend item l =
     (let l = (if head l = 0 then resize l else l);
          l = l\<lparr> head := head l - 1 \<rparr>;
          l = l\<lparr> buffer := (buffer l)(head l := Item item) \<rparr>;
          l = l\<lparr> lengthL := lengthL l + 1 \<rparr>
      in (lengthL l, l))"

definition append :: "'a \<Rightarrow> 'a RingSequence \<Rightarrow> int \<times> 'a RingSequence" where
  "append item l =
     (let l = (if tail l = capacity l - 1 then resize l else l);
          l = l\<lparr> tail := tail l + 1 \<rparr>;
          l = l\<lparr> buffer := (buffer l)(tail l := Item item) \<rparr>;
          l = l\<lparr> lengthL := lengthL l + 1 \<rparr>
      in (lengthL l, l))"

definition pop :: "'a RingSequence \<Rightarrow> 'a jsval \<times> 'a RingSequence" where
  "pop l =
     (if lengthL l = 0 then (Undefined, l)
      else
        let item = buffer l (tail l);
            l = l\<lparr> buffer := (buffer l)(tail l := Null) \<rparr>;
            l = l\<lparr> tail := tail l - 1 \<rparr>;
            l = l\<lparr> lengthL := lengthL l - 1 \<rparr>
        in (item, l))"

definition get :: "'a RingSequence \<Rightarrow> int \<Rightarrow> 'a jsval" where
  "get l index =
     (if index < 0 \<or> index \<ge> lengthL l then Undefined
      else buffer l (head l + index))"

definition set_at :: "int \<Rightarrow> 'a \<Rightarrow> 'a RingSequence \<Rightarrow> bool \<times> 'a RingSequence" where
  "set_at index v l =
     (if index < 0 \<or> index \<ge> lengthL l then (False, l)
      else (True, l\<lparr> buffer := (buffer l)(head l + index := Item v) \<rparr>))"

definition clear :: "'a RingSequence \<Rightarrow> 'a RingSequence" where
  "clear l =
     (let initialCapacity' = initialCapacity l
      in l\<lparr> capacity := initialCapacity',
            buffer := new_Array_fill_null initialCapacity',
            head := initialCapacity' div 2,
            tail := initialCapacity' div 2 - 1,
            lengthL := 0 \<rparr>)"

text \<open>
  \<open>map\<close>: a list created with capacity \<open>this.length\<close>, to which the loop appends
  \<open>callback(this.get(i), i)\<close> for \<open>i = 0, ..., length - 1\<close>.
\<close>

fun map_loop ::
  "('a jsval \<Rightarrow> int \<Rightarrow> 'b) \<Rightarrow> 'a RingSequence \<Rightarrow> nat \<Rightarrow> 'b RingSequence \<Rightarrow> 'b RingSequence" where
  "map_loop callback l 0 result = result"
| "map_loop callback l (Suc i) result =
     snd (append (callback (get l (int i)) (int i)) (map_loop callback l i result))"

definition mapL :: "('a jsval \<Rightarrow> int \<Rightarrow> 'b) \<Rightarrow> 'a RingSequence \<Rightarrow> 'b RingSequence" where
  "mapL callback l = map_loop callback l (nat (lengthL l)) (create (Some (nat (lengthL l))))"

text \<open>A call of one of the methods, what it returns, and a run of calls on one object.\<close>

datatype 'a call = Prepend 'a | Append 'a | Pop | Get int | Set int 'a | Clear

datatype 'a ret = NewLength int | Value "'a jsval" | Success bool | Nothing

fun exec :: "'a call \<Rightarrow> 'a RingSequence \<Rightarrow> 'a ret \<times> 'a RingSequence" where
  "exec (Prepend x) l = (let (n, l') = prepend x l in (NewLength n, l'))"
| "exec (Append x) l = (let (n, l') = append x l in (NewLength n, l'))"
| "exec Pop l = (let (v, l') = pop l in (Value v, l'))"
| "exec (Get i) l = (Value (get l i), l)"
| "exec (Set i v) l = (let (b, l') = set_at i v l in (Success b, l'))"
| "exec Clear l = (Nothing, clear l)"

fun run :: "'a call list \<Rightarrow> 'a RingSequence \<Rightarrow> 'a ret list \<times> 'a RingSequence" where
  "run [] l = ([], l)"
| "run (c # cs) l =
     (let (r, l') = exec c l; (rs, l'') = run cs l' in (r # rs, l''))"

text \<open>
  The logical sequence a history of calls determines, in the specification's words:
  \<open>prepend\<close> adds at index 0, \<open>append\<close> adds at index \<open>length\<close>, \<open>pop\<close> removes the last
  element, \<open>set\<close> overwrites an index in range, \<open>clear\<close> empties, \<open>get\<close> changes nothing.
\<close>

fun logical :: "'a call list \<Rightarrow> 'a list \<Rightarrow> 'a list" where
  "logical [] xs = xs"
| "logical (Prepend x # cs) xs = logical cs (x # xs)"
| "logical (Append x # cs) xs = logical cs (xs @ [x])"
| "logical (Pop # cs) xs = logical cs (butlast xs)"
| "logical (Get i # cs) xs = logical cs xs"
| "logical (Set i v # cs) xs =
     logical cs (if 0 \<le> i \<and> i < int (length xs) then xs[nat i := v] else xs)"
| "logical (Clear # cs) xs = logical cs []"

text \<open>
  The abstraction used in the proofs: the object \<open>l\<close> holds the logical sequence \<open>xs\<close> when
  \<open>length\<close> is its length, \<open>_tail\<close> is \<open>_head + length - 1\<close> and the slots from \<open>_head\<close> on
  hold its elements in order.
\<close>

definition represents :: "'a RingSequence \<Rightarrow> 'a list \<Rightarrow> bool" where
  "represents l xs \<longleftrightarrow>
     lengthL l = int (length xs) \<and> tail l = head l + lengthL l - 1 \<and>
     (\<forall>i<length xs. buffer l (head l + int i) = Item (xs ! i))"

text \<open>
  The window of an object of initial capacity at least 2 lies inside its storage: this is
  the invariant the resize of \<open>prepend\<close> and \<open>append\<close> keeps from capacity 2 on.
\<close>

definition window_in_storage :: "'a RingSequence \<Rightarrow> bool" where
  "window_in_storage l \<longleftrightarrow>
     2 \<le> initialCapacity l \<and> 2 \<le> capacity l \<and> 0 \<le> head l \<and> tail l < capacity l \<and>
     tail l = head l + lengthL l - 1 \<and> 0 \<le> lengthL l"

section \<open>The discrete Fourier transform (dft.js)\<close>

text \<open>
  JavaScript numbers are modelled as real numbers: the arithmetic of the transform and of
  the animation is exact, without rounding. A point is the object \<open>{re, im}\<close>, a
  descriptor the object \<open>{re, im, freq, amp, phase}\<close> that \<open>dft\<close> pushes.
\<close>

record cpoint =
  re :: real
  im :: real

record descriptor = cpoint +
  freq :: nat
  amp :: real
  phase :: real

text \<open>\<open>Math.hypot\<close> and \<open>Math.atan2\<close> of the host, on real numbers.\<close>

definition Math_hypot :: "real \<Rightarrow> real \<Rightarrow> real" where
  "Math_hypot a b = sqrt (a\<^sup>2 + b\<^sup>2)"

definition Math_atan2 :: "real \<Rightarrow> real \<Rightarrow> real" where
  "Math_atan2 y x =
     (if 0 < x then arctan (y / x)
      else if x < 0 \<and> 0 \<le> y then arctan (y / x) + pi
      else if x < 0 then arctan (y / x) - pi
      else if 0 < y then pi / 2
      else if y < 0 then - (pi / 2)
      else 0)"

text \<open>The inner loop of \<open>dft\<close>, over \<open>n\<close>, with the running sums \<open>re\<close> and \<open>im\<close>.\<close>

function dft_inner :: "cpoint list \<Rightarrow> nat \<Rightarrow> nat \<Rightarrow> real \<times> real \<Rightarrow> real \<times> real" where
  "dft_inner x k n (re', im') =
     (if n < length x then
        let phi = (2 * pi * real k * real n) / real (length x)
        in dft_inner x k (Suc n)
             (re' + (re (x ! n) * cos phi + im (x ! n) * sin phi),
              im' + (- re (x ! n) * sin phi + im (x ! n) * cos phi))
      else (re', im'))"
  by pat_completeness auto
termination
  by (relation "measure (\<lambda>(x, k, n, acc). length x - n)") auto

declare dft_inner.simps [simp del]

text \<open>The outer loop, over \<open>k\<close>, pushing one descriptor onto \<open>X\<close> each round.\<close>

function dft_outer :: "cpoint list \<Rightarrow> nat \<Rightarrow> descriptor list \<Rightarrow> descriptor list" where
  "dft_outer x k X =
     (if k < length x then
        let (re', im') = dft_inner x k 0 (0, 0);
            re' = re' / real (length x);
            im' = im' / real (length x);
            freq' = k;
            amp' = Math_hypot re' im';
            phase' = Math_atan2 im' re'
        in dft_outer x (Suc k)
             (X @ [\<lparr> re = re', im = im', freq = freq', amp = amp', phase = phase' \<rparr>])
      else X)"
  by pat_completeness auto
termination
  by (relation "measure (\<lambda>(x, k, X). length x - k)") auto

declare dft_outer.simps [simp del]

definition dft :: "cpoint list \<Rightarrow> descriptor list" where
  "dft x = dft_outer x 0 []"

section \<open>The animation (home-animation.js)\<close>

subsection \<open>Start-up: the points and their sorted descriptors\<close>

text \<open>\<open>helloPath\<close> is a list of pairs \<open>[x, y]\<close>; it comes from path.js and is a parameter here.\<close>

definition complexPoints :: "(real \<times> real) list \<Rightarrow> cpoint list" where
  "complexPoints helloPath = map (\<lambda>pt. \<lparr> re = fst pt, im = snd pt \<rparr>) helloPath"

text \<open>
  \<open>dft(complexPoints).sort((a, b) => b.amp - a.amp)\<close>: a stable sort by descending
  amplitude, that is, by ascending negated amplitude.
\<close>

definition fourier :: "(real \<times> real) list \<Rightarrow> descriptor list" where
  "fourier helloPath = sort_key (\<lambda>d. - amp d) (dft (complexPoints helloPath))"

text \<open>
  The loop of \<open>draw\<close> over the descriptors, which moves the cursor \<open>(x, y)\<close> along the
  chain of rotating vectors. The circles and lines it strokes go to the canvas only.
\<close>

fun epicycles :: "descriptor list \<Rightarrow> real \<Rightarrow> real \<times> real \<Rightarrow> real \<times> real" where
  "epicycles [] time' (x, y) = (x, y)"
| "epicycles (d # ds) time' (x, y) =
     (let freq' = freq d; radius = amp d; phase' = phase d
      in epicycles ds time'
           (x + radius * cos (real freq' * time' + phase'),
            y + radius * sin (real freq' * time' + phase')))"

subsection \<open>The bounding box and the scale\<close>

text \<open>
  The bounding box starts from \<open>Infinity\<close> and \<open>-Infinity\<close> and the scale divides by its
  sides, so this part keeps the values a JavaScript number has besides the finite ones.
  A finite value is an exact real: the rounding of the mantissa is left out. The overflow
  is not: a difference, quotient or product whose exact value is at or beyond
  \<open>2^1024 - 2^970\<close>, from where a double rounds to \<open>Infinity\<close>, is \<open>Infinity\<close>. Zero has no
  sign: the only zero the code divides by is \<open>maxX - minX\<close> (or \<open>maxY - minY\<close>) of equal
  bounds, which is \<open>+0\<close>.
\<close>

datatype jsnum = Fin real | PInf | NInf | NaN

definition overflow_at :: real where
  "overflow_at = 2 ^ 1024 - 2 ^ 970"

definition rounded :: "real \<Rightarrow> jsnum" where
  "rounded r =
     (if overflow_at \<le> r then PInf
      else if r \<le> - overflow_at then NInf
      else Fin r)"

text \<open>What the specification calls finite: neither an infinity nor \<open>NaN\<close>.\<close>

fun isFinite :: "jsnum \<Rightarrow> bool" where
  "isFinite (Fin a) = True"
| "isFinite a = False"

fun js_less :: "jsnum \<Rightarrow> jsnum \<Rightarrow> bool" where
  "js_less NaN b = False"
| "js_less a NaN = False"
| "js_less (Fin a) (Fin b) = (a < b)"
| "js_less (Fin a) PInf = True"
| "js_less NInf (Fin b) = True"
| "js_less NInf PInf = True"
| "js_less a b = False"

fun js_sub :: "jsnum \<Rightarrow> jsnum \<Rightarrow> jsnum" where
  "js_sub NaN b = NaN"
| "js_sub a NaN = NaN"
| "js_sub (Fin a) (Fin b) = rounded (a - b)"
| "js_sub PInf PInf = NaN"
| "js_sub NInf NInf = NaN"
| "js_sub PInf b = PInf"
| "js_sub NInf b = NInf"
| "js_sub (Fin a) PInf = NInf"
| "js_sub (Fin a) NInf = PInf"

fun js_div :: "jsnum \<Rightarrow> jsnum \<Rightarrow> jsnum" where
  "js_div NaN b = NaN"
| "js_div a NaN = NaN"
| "js_div (Fin a) (Fin b) =
     (if b \<noteq> 0 then rounded (a / b)
      else if a = 0 then NaN
      else if 0 < a then PInf else NInf)"
| "js_div (Fin a) b = Fin 0"
| "js_div PInf (Fin b) = (if 0 \<le> b then PInf else NInf)"
| "js_div NInf (Fin b) = (if 0 \<le> b then NInf else PInf)"
| "js_div a b = NaN"

fun js_mul :: "jsnum \<Rightarrow> jsnum \<Rightarrow> jsnum" where
  "js_mul NaN b = NaN"
| "js_mul a NaN = NaN"
| "js_mul (Fin a) (Fin b) = rounded (a * b)"
| "js_mul PInf (Fin b) = (if b = 0 then NaN else if 0 < b then PInf else NInf)"
| "js_mul NInf (Fin b) = (if b = 0 then NaN else if 0 < b then NInf else PInf)"
| "js_mul (Fin a) PInf = (if a = 0 then NaN else if 0 < a then PInf else NInf)"
| "js_mul (Fin a) NInf = (if a = 0 then NaN else if 0 < a then NInf else PInf)"
| "js_mul PInf PInf = PInf"
| "js_mul NInf NInf = PInf"
| "js_mul a b = NInf"

fun Math_min :: "jsnum \<Rightarrow> jsnum \<Rightarrow> jsnum" where
  "Math_min NaN b = NaN"
| "Math_min a NaN = NaN"
| "Math_min NInf b = NInf"
| "Math_min a NInf = NInf"
| "Math_min PInf b = b"
| "Math_min a PInf = a"
| "Math_min (Fin a) (Fin b) = Fin (min a b)"

text \<open>The \<open>forEach\<close> over \<open>helloPath\<close> that finds \<open>minX\<close>, \<open>maxX\<close>, \<open>minY\<close>, \<open>maxY\<close>.\<close>

fun bounds ::
  "(real \<times> real) list \<Rightarrow> jsnum \<times> jsnum \<times> jsnum \<times> jsnum \<Rightarrow> jsnum \<times> jsnum \<times> jsnum \<times> jsnum" where
  "bounds [] b = b"
| "bounds (pt # pts) (minX, maxX, minY, maxY) =
     bounds pts
       (if js_less (Fin (fst pt)) minX then Fin (fst pt) else minX,
        if js_less maxX (Fin (fst pt)) then Fin (fst pt) else maxX,
        if js_less (Fin (snd pt)) minY then Fin (snd pt) else minY,
        if js_less maxY (Fin (snd pt)) then Fin (snd pt) else maxY)"

definition designWidth :: "(real \<times> real) list \<Rightarrow> jsnum" where
  "designWidth helloPath =
     (let (minX, maxX, minY, maxY) = bounds helloPath (PInf, NInf, PInf, NInf)
      in js_sub maxX minX)"

definition designHeight :: "(real \<times> real) list \<Rightarrow> jsnum" where
  "designHeight helloPath =
     (let (minX, maxX, minY, maxY) = bounds helloPath (PInf, NInf, PInf, NInf)
      in js_sub maxY minY)"

text \<open>The scale of one frame, from the CSS size of the canvas.\<close>

definition scale :: "(real \<times> real) list \<Rightarrow> jsnum \<Rightarrow> jsnum \<Rightarrow> jsnum" where
  "scale helloPath cssWidth cssHeight =
     (let scaleX = js_div cssWidth (designWidth helloPath);
          scaleY = js_div cssHeight (designHeight helloPath)
      in js_mul (Math_min scaleX scaleY) (Fin (9 / 10)))"

text \<open>The sides of the bounding box of a path, as the specification names them.\<close>

definition pathWidth :: "(real \<times> real) list \<Rightarrow> real" where
  "pathWidth helloPath = Max (fst ` set helloPath) - Min (fst ` set helloPath)"

definition pathHeight :: "(real \<times> real) list \<Rightarrow> real" where
  "pathHeight helloPath = Max (snd ` set helloPath) - Min (snd ` set helloPath)"

subsection \<open>The animation state, the frame step and the resize handler\<close>

text \<open>
  The variables \<open>time\<close>, \<open>path\<close>, \<open>lastFrameTime\<close> and \<open>animationFrameId\<close> of the handler
  (\<open>null\<close> is \<open>None\<close>), and the two things the host keeps for \<open>requestAnimationFrame\<close>: the
  callbacks that are scheduled and have neither run nor been cancelled, each under its
  handle, and the last handle it gave out. The script schedules two callbacks: \<open>draw\<close>
  (from \<open>resizeCanvas\<close> and from \<open>draw\<close> itself) and the arrow function of the click
  handler of the full-screen button, which dispatches a \<open>resize\<close> event.
\<close>

datatype callback = Draw | DispatchResize

record anim =
  time :: real
  path :: "(real \<times> real) RingSequence"
  lastFrameTime :: real
  animationFrameId :: "nat option"
  pending :: "nat \<rightharpoonup> callback"
  lastHandle :: nat

text \<open>The host: a request returns the next handle, starting at 1; a cancel forgets a handle.\<close>

definition requestAnimationFrame :: "callback \<Rightarrow> anim \<Rightarrow> nat \<times> anim" where
  "requestAnimationFrame cb s =
     (let h = lastHandle s + 1
      in (h, s\<lparr> lastHandle := h, pending := (pending s)(h \<mapsto> cb) \<rparr>))"

definition cancelAnimationFrame :: "nat \<Rightarrow> anim \<Rightarrow> anim" where
  "cancelAnimationFrame h s = s\<lparr> pending := (pending s)(h := None) \<rparr>"

text \<open>
  The remainder \<open>a % b\<close> of JavaScript for a divisor that is not zero: the quotient is
  truncated towards zero.
\<close>

definition js_rem :: "real \<Rightarrow> real \<Rightarrow> real" where
  "js_rem a b = a - b * of_int (if 0 \<le> a / b then \<lfloor>a / b\<rfloor> else \<lceil>a / b\<rceil>)"

definition animationSpeed :: real where
  "animationSpeed = 1"

text \<open>
  \<open>dt\<close>, for a list of \<open>N\<close> descriptors. For \<open>N = 0\<close> JavaScript gives \<open>Infinity\<close> and HOL
  gives 0: what is proved about \<open>dt\<close> below is for \<open>N \<ge> 1\<close>.
\<close>

definition dt :: "descriptor list \<Rightarrow> real" where
  "dt fourier' = (2 * pi) / real (length fourier')"

text \<open>The state when the handler of \<open>DOMContentLoaded\<close> has declared its variables.\<close>

definition init :: "descriptor list \<Rightarrow> anim" where
  "init fourier' =
     \<lparr> time = 0,
       path = create (Some (length fourier')),
       lastFrameTime = 0,
       animationFrameId = None,
       pending = Map.empty,
       lastHandle = 0 \<rparr>"

text \<open>
  \<open>resizeCanvas\<close>. \<open>if (animationFrameId)\<close> holds for a handle other than 0. The sizing of
  the canvas writes to the canvas only.
\<close>

definition resizeCanvas :: "anim \<Rightarrow> anim" where
  "resizeCanvas s =
     (let s = (case animationFrameId s of
                 Some h \<Rightarrow> if h \<noteq> 0 then cancelAnimationFrame h s else s
               | None \<Rightarrow> s);
          s = s\<lparr> path := clear (path s) \<rparr>;
          s = s\<lparr> time := 0 \<rparr>;
          s = s\<lparr> lastFrameTime := 0 \<rparr>;
          (h, s) = requestAnimationFrame Draw s
      in s\<lparr> animationFrameId := Some h \<rparr>)"

text \<open>\<open>draw\<close>, without its calls to the canvas.\<close>

definition draw :: "descriptor list \<Rightarrow> real \<Rightarrow> anim \<Rightarrow> anim" where
  "draw fourier' currentTime s =
     (let s = (if lastFrameTime s = 0 then s\<lparr> lastFrameTime := currentTime \<rparr> else s);
          elapsed = currentTime - lastFrameTime s;
          s = (if elapsed > 1000 / 60 / animationSpeed then
                 let s = s\<lparr> lastFrameTime := currentTime \<rparr>;
                     (x, y) = epicycles fourier' (time s) (0, 0);
                     s = s\<lparr> path := snd (prepend (x, y) (path s)) \<rparr>;
                     s = s\<lparr> time := time s + dt fourier' \<rparr>
                 in if time s \<ge> 2 * pi
                    then let s = s\<lparr> time := js_rem (time s) (2 * pi) \<rparr>
                         in s\<lparr> path := clear (path s) \<rparr>
                    else s
               else s);
          (h, s) = requestAnimationFrame Draw s
      in s\<lparr> animationFrameId := Some h \<rparr>)"

text \<open>
  The click handler of the full-screen button: it toggles classes of the page and
  requests a frame for the arrow function; the handle it gets is dropped.
\<close>

definition click :: "anim \<Rightarrow> anim" where
  "click s = snd (requestAnimationFrame DispatchResize s)"

text \<open>
  The host running a \<open>draw\<close> callback it holds under handle \<open>h\<close> with the timestamp \<open>t\<close>:
  the handle stops being pending and \<open>draw\<close> is called with the timestamp alone. And the
  host running the arrow function it holds under \<open>h\<close>: \<open>dispatchEvent\<close> calls the listener
  \<open>resizeCanvas\<close> at once.
\<close>

definition fire_callback :: "descriptor list \<Rightarrow> nat \<Rightarrow> real \<Rightarrow> anim \<Rightarrow> anim" where
  "fire_callback fourier' h t s = draw fourier' t (s\<lparr> pending := (pending s)(h := None) \<rparr>)"

definition fire_dispatch :: "nat \<Rightarrow> anim \<Rightarrow> anim" where
  "fire_dispatch h s = resizeCanvas (s\<lparr> pending := (pending s)(h := None) \<rparr>)"

text \<open>
  What happens after start-up: the host runs a pending callback, the window is resized,
  or the full-screen button is clicked. The host does not run a callback that is not
  pending.
\<close>

datatype event = Tick nat real | Resize | Click

fun step :: "descriptor list \<Rightarrow> event \<Rightarrow> anim \<Rightarrow> anim" where
  "step fourier' (Tick h t) s =
     (case pending s h of
        Some Draw \<Rightarrow> fire_callback fourier' h t s
      | Some DispatchResize \<Rightarrow> fire_dispatch h s
      | None \<Rightarrow> s)"
| "step fourier' Resize s = resizeCanvas s"
| "step fourier' Click s = click s"

fun run_events :: "descriptor list \<Rightarrow> event list \<Rightarrow> anim \<Rightarrow> anim" where
  "run_events fourier' [] s = s"
| "run_events fourier' (e # es) s = run_events fourier' es (step fourier' e s)"

text \<open>The handler of \<open>DOMContentLoaded\<close> ends with a call of \<open>resizeCanvas\<close>.\<close>

definition start :: "descriptor list \<Rightarrow> anim" where
  "start fourier' = resizeCanvas (init fourier')"

text \<open>
  Whether \<open>draw\<close>, called with \<open>currentTime\<close> in state \<open>s\<close>, passes its gate and processes
  the frame.
\<close>

definition processed :: "real \<Rightarrow> anim \<Rightarrow> bool" where
  "processed currentTime s =
     (currentTime - (if lastFrameTime s = 0 then currentTime else lastFrameTime s)
        > 1000 / 60 / animationSpeed)"

text \<open>
  Two invariants of the proofs. In exact arithmetic the state is always a whole number
  \<open>k < N\<close> of steps \<open>dt\<close> into the turn, with \<open>k\<close> points on the trail; and the host holds
  exactly one pending request for \<open>draw\<close>, the one recorded in \<open>animationFrameId\<close>.
\<close>

definition on_grid :: "descriptor list \<Rightarrow> anim \<Rightarrow> bool" where
  "on_grid fourier' s \<longleftrightarrow>
     (\<exists>k<length fourier'. time s = real k * dt fourier' \<and> lengthL (path s) = int k)"

definition one_pending :: "anim \<Rightarrow> bool" where
  "one_pending s \<longleftrightarrow>
     (\<exists>h. animationFrameId s = Some h \<and> h \<noteq> 0 \<and> h \<le> lastHandle s \<and>
          (\<forall>h'. pending s h' = Some Draw \<longleftrightarrow> h' = h))"

text \<open>A sample input: two descriptors of amplitude 0, so that \<open>dt\<close> is \<open>pi\<close>.\<close>

abbreviation (input) two_still :: "descriptor list" where
  "two_still \<equiv>
     [\<lparr> re = 0, im = 0, freq = 0, amp = 0, phase = 0 \<rparr>,
      \<lparr> re = 0, im = 0, freq = 1, amp = 0, phase = 0 \<rparr>]"

text \<open>
  For the proofs about the transform: the descriptor that round \<open>k\<close> of the outer loop
  pushes; the \<open>n\<close>-th point as a complex number; and the \<open>k\<close>-th coefficient of the
  transform as a complex number, which is the sum the inner loop computes, divided by \<open>N\<close>.
\<close>

definition descriptor_at :: "cpoint list \<Rightarrow> nat \<Rightarrow> descriptor" where
  "descriptor_at x k =
     (let re' = fst (dft_inner x k 0 (0, 0)) / real (length x);
          im' = snd (dft_inner x k 0 (0, 0)) / real (length x)
      in \<lparr> re = re', im = im', freq = k, amp = Math_hypot re' im', phase = Math_atan2 im' re' \<rparr>)"

definition as_complex :: "cpoint list \<Rightarrow> nat \<Rightarrow> complex" where
  "as_complex x n = Complex (re (x ! n)) (im (x ! n))"

definition coefficient :: "cpoint list \<Rightarrow> nat \<Rightarrow> complex" where
  "coefficient x k =
     (\<Sum>m<length x. as_complex x m * cis (- (2 * pi * real k * real m / real (length x))))
       / of_nat (length x)"

text \<open>A sample input: the square of side 10 of the specification's concrete scenario.\<close>

abbreviation (input) square10 :: "cpoint list" where
  "square10 \<equiv>
     [\<lparr> re = 0, im = 0 \<rparr>, \<lparr> re = 10, im = 0 \<rparr>, \<lparr> re = 10, im = 10 \<rparr>, \<lparr> re = 0, im = 10 \<rparr>]"

section \<open>The list holds the sequence its calls describe\<close>

lemma copy_elements_apply:
  "copy_elements old oh nh n nb j =
     (if nh \<le> j \<and> j < nh + int n then old (oh + (j - nh)) else nb j)"
  by (induction n) auto

lemma represents_constructor: "represents (constructor c) []"
  by (simp add: represents_def constructor_def)

lemma represents_clear: "represents (clear l) []"
  by (simp add: represents_def clear_def Let_def)

lemma represents_resize: "represents l xs \<Longrightarrow> represents (resize l) xs"
  by (simp add: represents_def resize_def Let_def copy_elements_apply)

lemma represents_prepend:
  assumes "represents l xs" shows "represents (snd (prepend x l)) (x # xs)"
proof -
  define l1 where "l1 = (if head l = 0 then resize l else l)"
  have r: "represents l1 xs" using assms by (simp add: l1_def represents_resize)
  have p: "snd (prepend x l) = l1\<lparr> head := head l1 - 1, buffer := (buffer l1)(head l1 - 1 := Item x), lengthL := lengthL l1 + 1 \<rparr>"
    by (simp add: prepend_def Let_def l1_def)
  show ?thesis unfolding p using r
    by (auto simp: represents_def nth_Cons split: nat.splits)
qed

lemma represents_append:
  assumes "represents l xs" shows "represents (snd (append x l)) (xs @ [x])"
proof -
  define l1 where "l1 = (if tail l = capacity l - 1 then resize l else l)"
  have r: "represents l1 xs" using assms by (simp add: l1_def represents_resize)
  have p: "snd (append x l) = l1\<lparr> tail := tail l1 + 1, buffer := (buffer l1)(tail l1 + 1 := Item x), lengthL := lengthL l1 + 1 \<rparr>"
    by (simp add: append_def Let_def l1_def)
  show ?thesis unfolding p using r
    by (auto simp: represents_def nth_append)
qed

lemma represents_pop:
  assumes "represents l xs" shows "represents (snd (pop l)) (butlast xs)"
proof (cases xs rule: rev_cases)
  case Nil
  with assms show ?thesis by (simp add: represents_def pop_def)
next
  case (snoc ys y)
  with assms show ?thesis
    by (auto simp: represents_def pop_def Let_def nth_append)
qed

lemma represents_set_at:
  assumes "represents l xs"
  shows "represents (snd (set_at i v l)) (if 0 \<le> i \<and> i < int (length xs) then xs[nat i := v] else xs)"
  using assms by (auto simp: represents_def set_at_def nth_list_update)

lemma represents_get:
  "represents l xs \<Longrightarrow> 0 \<le> i \<Longrightarrow> i < int (length xs) \<Longrightarrow> get l i = Item (xs ! nat i)"
  by (auto simp: represents_def get_def dest!: spec[where x="nat i"])

lemma represents_run:
  "represents l xs \<Longrightarrow> represents (snd (run cs l)) (logical cs xs)"
proof (induction cs xs arbitrary: l rule: logical.induct)
  case (1 xs) then show ?case by simp
next
  case (2 x cs xs)
  from 2(1)[OF represents_prepend[OF 2(2)]] show ?case by (simp add: split_beta)
next
  case (3 x cs xs)
  from 3(1)[OF represents_append[OF 3(2)]] show ?case by (simp add: split_beta)
next
  case (4 cs xs)
  from 4(1)[OF represents_pop[OF 4(2)]] show ?case by (simp add: split_beta)
next
  case (5 i cs xs)
  from 5(1)[OF 5(2)] show ?case by (simp add: split_beta)
next
  case (6 i v cs xs)
  from 6(1)[OF represents_set_at[OF 6(2)]] show ?case by (simp add: split_beta)
next
  case (7 cs xs)
  from 7(1)[OF represents_clear] show ?case by (simp add: split_beta)
qed

text \<open>
  Claim C4. Start from an empty list of any initial capacity and make any finite sequence
  of calls (\<open>prepend\<close> and \<open>append\<close>, and \<open>pop\<close>, \<open>set\<close>, \<open>clear\<close>, \<open>get\<close> as well). Then
  \<open>length\<close> is the length of the logical sequence that the history of calls determines
  (\<open>prepend\<close> adds at index 0, \<open>append\<close> at index \<open>length\<close>), and for every \<open>i\<close> with
  \<open>0 \<le> i < length\<close>, \<open>get(i)\<close> returns the \<open>i\<close>-th element of that sequence, however often
  the storage was resized at either end.
\<close>

theorem get_matches_call_history:
  assumes "0 \<le> i" and "i < lengthL (snd (run cs (constructor c)))"
  shows "lengthL (snd (run cs (constructor c))) = int (length (logical cs [])) \<and>
         get (snd (run cs (constructor c))) i = Item (logical cs [] ! nat i)"
proof -
  have r: "represents (snd (run cs (constructor c))) (logical cs [])"
    by (rule represents_run[OF represents_constructor])
  then have len: "lengthL (snd (run cs (constructor c))) = int (length (logical cs []))"
    by (simp add: represents_def)
  with assms represents_get[OF r] show ?thesis by simp
qed

theorem get_matches_call_history_witness:
  "get (snd (run [Append (1::nat), Prepend 2, Prepend 3, Append 4] (constructor 1))) 1 = Item 2"
  using get_matches_call_history[of 1 "[Append (1::nat), Prepend 2, Prepend 3, Append 4]" 1]
  by (simp add: constructor_def prepend_def append_def resize_def Let_def new_Array_fill_null_def get_def)

section \<open>Clearing\<close>

lemma initialCapacity_exec: "initialCapacity (snd (exec c l)) = initialCapacity l"
  by (cases c)
     (simp_all add: prepend_def append_def pop_def set_at_def clear_def resize_def Let_def)

lemma initialCapacity_run: "initialCapacity (snd (run cs l)) = initialCapacity l"
  by (induction cs arbitrary: l) (simp_all add: split_beta initialCapacity_exec)

lemma clear_eq_constructor: "initialCapacity l = int c \<Longrightarrow> clear l = constructor c"
  by (cases l) (simp add: clear_def constructor_def Let_def)

text \<open>
  Claim C7. After any sequence of calls on a list created with initial capacity \<open>c\<close>
  (growth past \<open>c\<close> included), \<open>clear()\<close> leaves the very state of a freshly created list of
  initial capacity \<open>c\<close>: every field is equal, so \<open>length\<close> is 0, the capacity is \<open>c\<close> again,
  and every later sequence of calls returns the same results and reaches the same states
  (resizes included) on both.
\<close>

theorem clear_gives_fresh_list:
  "clear (snd (run cs (constructor c))) = constructor c \<and>
   lengthL (clear (snd (run cs (constructor c)))) = 0 \<and>
   capacity (clear (snd (run cs (constructor c)))) = int c \<and>
   run cs' (clear (snd (run cs (constructor c)))) = run cs' (constructor c)"
proof -
  have "initialCapacity (snd (run cs (constructor c))) = int c"
    by (simp add: initialCapacity_run) (simp add: constructor_def)
  then have "clear (snd (run cs (constructor c))) = (constructor c :: 'a RingSequence)"
    by (rule clear_eq_constructor)
  then show ?thesis by (simp add: constructor_def)
qed

section \<open>Access out of range\<close>

text \<open>
  Claim C6. In every state of the list: \<open>get(i)\<close> with \<open>i < 0\<close> or \<open>i \<ge> length\<close> returns
  \<open>undefined\<close> (the branch returns before it reads the storage); \<open>set(i, v)\<close> with such an
  \<open>i\<close> returns \<open>false\<close> and leaves the object as it was, field by field; \<open>pop()\<close> on an
  empty list returns \<open>undefined\<close> and leaves the object as it was. None of the three has a
  branch that throws.
\<close>

theorem out_of_range_access:
  "(i < 0 \<or> lengthL l \<le> i \<longrightarrow> get l i = Undefined \<and> set_at i v l = (False, l)) \<and>
   (lengthL l = 0 \<longrightarrow> pop l = (Undefined, l))"
  by (simp add: get_def set_at_def pop_def)

theorem out_of_range_access_witness:
  "get (constructor 2 :: nat RingSequence) (- 1) = Undefined \<and>
   set_at (- 1) 7 (constructor 2 :: nat RingSequence) = (False, constructor 2) \<and>
   get (constructor 2 :: nat RingSequence) 0 = Undefined \<and>
   set_at 0 7 (constructor 2 :: nat RingSequence) = (False, constructor 2) \<and>
   pop (constructor 2 :: nat RingSequence) = (Undefined, constructor 2)"
proof -
  have e: "lengthL (constructor 2 :: nat RingSequence) = 0"
    by (simp add: constructor_def)
  show ?thesis
    using out_of_range_access[of "- 1" "constructor 2 :: nat RingSequence" 7]
      out_of_range_access[of 0 "constructor 2 :: nat RingSequence" 7] e
    by simp
qed

section \<open>Capacity and length\<close>

lemma window_constructor: "2 \<le> c \<Longrightarrow> window_in_storage (constructor c)"
  by (simp add: window_in_storage_def constructor_def)

lemma window_clear: "window_in_storage l \<Longrightarrow> window_in_storage (clear l)"
  by (simp add: window_in_storage_def clear_def Let_def) linarith

lemma window_prepend: "window_in_storage l \<Longrightarrow> window_in_storage (snd (prepend x l))"
  by (auto simp: window_in_storage_def prepend_def resize_def Let_def)

lemma window_append: "window_in_storage l \<Longrightarrow> window_in_storage (snd (append x l))"
  by (auto simp: window_in_storage_def append_def resize_def Let_def)

lemma window_pop: "window_in_storage l \<Longrightarrow> window_in_storage (snd (pop l))"
  by (auto simp: window_in_storage_def pop_def Let_def)

lemma window_set_at: "window_in_storage l \<Longrightarrow> window_in_storage (snd (set_at i v l))"
  by (auto simp: window_in_storage_def set_at_def)

lemma window_exec: "window_in_storage l \<Longrightarrow> window_in_storage (snd (exec c l))"
  by (cases c)
     (simp_all add: split_beta window_prepend window_append window_pop window_set_at window_clear)

lemma window_run: "window_in_storage l \<Longrightarrow> window_in_storage (snd (run cs l))"
  by (induction cs arbitrary: l) (simp_all add: split_beta window_exec)

lemma length_le_capacity_from_two:
  "2 \<le> c \<Longrightarrow> lengthL (snd (run cs (constructor c))) \<le> capacity (snd (run cs (constructor c)))"
  using window_run[OF window_constructor, of c cs] by (simp add: window_in_storage_def)

text \<open>A call leaves the capacity, doubles it, or (for \<open>clear\<close>) resets it.\<close>

lemma capacity_exec:
  "capacity (snd (exec c l)) = capacity l \<or> capacity (snd (exec c l)) = capacity l * 2 \<or>
   capacity (snd (exec c l)) = initialCapacity l"
  by (cases c)
     (simp_all add: prepend_def append_def pop_def set_at_def clear_def resize_def Let_def)

text \<open>
  Claim C5, where the code departs from it. The claim is that the capacity is at least the
  length after every call, for every initial capacity. From initial capacity 2 on this
  holds (\<open>length_le_capacity_from_two\<close>). A list of initial capacity 1 breaks it: after
  \<open>append(a)\<close> the one slot is full, the resize of \<open>prepend(b)\<close> computes the new head
  \<open>floor((2 - 1) / 2) = 0\<close> and so leaves no room in front, \<open>prepend\<close> writes under key
  \<open>-1\<close>, and from then on \<open>_head\<close> is never 0 again, so no \<open>prepend\<close> ever resizes: after
  \<open>prepend(c)\<close> the length is 3 and the capacity 2. \<open>map\<close> creates such a list from a list
  of one element, as the second half of the theorem shows.
\<close>

theorem length_exceeds_capacity_from_one:
  "lengthL (snd (run [Append a, Prepend b, Prepend c] (constructor 1))) = 3 \<and>
   capacity (snd (run [Append a, Prepend b, Prepend c] (constructor 1))) = 2 \<and>
   head (snd (run [Append a, Prepend b, Prepend c] (constructor 1))) = - 2 \<and>
   lengthL (snd (run [Prepend b, Prepend c]
     (mapL callback (snd (append a (create None)))))) = 3 \<and>
   capacity (snd (run [Prepend b, Prepend c]
     (mapL callback (snd (append a (create None)))))) = 2"
  by (simp add: create_def constructor_def prepend_def append_def resize_def mapL_def Let_def)

section \<open>The frame step and the resize handler, field by field\<close>

lemma lengthL_prepend: "lengthL (snd (prepend x l)) = lengthL l + 1"
  by (simp add: prepend_def resize_def Let_def)

lemma initialCapacity_prepend: "initialCapacity (snd (prepend x l)) = initialCapacity l"
  by (simp add: prepend_def resize_def Let_def)

lemma clear_prepend: "clear (snd (prepend x l)) = clear l"
  by (simp add: clear_def Let_def prepend_def resize_def)

lemma lengthL_clear: "lengthL (clear l) = 0"
  by (simp add: clear_def Let_def)

lemma time_draw:
  "time (draw f t s) =
     (if processed t s
      then (if 2 * pi \<le> time s + dt f then js_rem (time s + dt f) (2 * pi) else time s + dt f)
      else time s)"
  by (simp add: draw_def processed_def requestAnimationFrame_def Let_def split_beta)

lemma path_draw:
  "path (draw f t s) =
     (if processed t s
      then (if 2 * pi \<le> time s + dt f then clear (path s)
            else snd (prepend (epicycles f (time s) (0, 0)) (path s)))
      else path s)"
  by (simp add: draw_def processed_def requestAnimationFrame_def Let_def split_beta clear_prepend)

lemma lastFrameTime_draw:
  "lastFrameTime (draw f t s) =
     (if processed t s \<or> lastFrameTime s = 0 then t else lastFrameTime s)"
  by (simp add: draw_def processed_def requestAnimationFrame_def Let_def split_beta)

lemma host_draw:
  "pending (draw f t s) = (pending s)(lastHandle s + 1 \<mapsto> Draw)"
  "lastHandle (draw f t s) = lastHandle s + 1"
  "animationFrameId (draw f t s) = Some (lastHandle s + 1)"
  by (simp_all add: draw_def requestAnimationFrame_def Let_def split_beta)

lemma fields_resizeCanvas:
  "time (resizeCanvas s) = 0"
  "path (resizeCanvas s) = clear (path s)"
  "lastFrameTime (resizeCanvas s) = 0"
  "lastHandle (resizeCanvas s) = lastHandle s + 1"
  "animationFrameId (resizeCanvas s) = Some (lastHandle s + 1)"
  by (simp_all add: resizeCanvas_def requestAnimationFrame_def cancelAnimationFrame_def Let_def
        split_beta split: option.splits)

lemma pending_resizeCanvas:
  "pending (resizeCanvas s) =
     (case animationFrameId s of
        Some h \<Rightarrow> if h \<noteq> 0 then (pending s)(h := None) else pending s
      | None \<Rightarrow> pending s)(lastHandle s + 1 \<mapsto> Draw)"
  by (simp add: resizeCanvas_def requestAnimationFrame_def cancelAnimationFrame_def Let_def
        split_beta split: option.splits)

section \<open>The turn is walked in whole steps\<close>

lemma js_rem_self: "b \<noteq> 0 \<Longrightarrow> js_rem b b = 0"
  by (simp add: js_rem_def)

lemma wrap_iff:
  assumes "k < n"
  shows "2 * pi \<le> real k * (2 * pi / real n) + 2 * pi / real n \<longleftrightarrow> Suc k = n"
proof -
  have n: "0 < real n" using assms by simp
  have "real k * (2 * pi / real n) + 2 * pi / real n = (real k + 1) * (2 * pi / real n)"
    by (simp only: distrib_right mult_1)
  also have "\<dots> = (2 * pi) * (real (Suc k) / real n)"
    by (simp add: algebra_simps add_divide_distrib)
  finally have e: "real k * (2 * pi / real n) + 2 * pi / real n = (2 * pi) * (real (Suc k) / real n)" .
  have "(2 * pi) * 1 \<le> (2 * pi) * (real (Suc k) / real n) \<longleftrightarrow> 1 \<le> real (Suc k) / real n"
    by (rule mult_le_cancel_left_pos) simp
  moreover have "1 \<le> real (Suc k) / real n \<longleftrightarrow> real n \<le> real (Suc k)"
    using n by (simp only: le_divide_eq_1_pos)
  moreover have "real n \<le> real (Suc k) \<longleftrightarrow> n \<le> Suc k"
    by (rule of_nat_le_iff)
  ultimately have "2 * pi \<le> real k * (2 * pi / real n) + 2 * pi / real n \<longleftrightarrow> n \<le> Suc k"
    unfolding e by (simp only: mult_1_right)
  then show ?thesis using assms by auto
qed

lemma grid_time:
  assumes "k < n"
  shows "0 \<le> real k * (2 * pi / real n) \<and> real k * (2 * pi / real n) < 2 * pi"
proof -
  have n: "0 < real n" using assms by auto
  have e: "real k * (2 * pi / real n) = (2 * pi) * (real k / real n)"
    by simp
  have "real k / real n < 1" using n assms by (simp add: divide_less_eq_1_pos)
  then have "(2 * pi) * (real k / real n) < (2 * pi) * 1"
    by (intro mult_strict_left_mono) simp_all
  moreover have "0 \<le> (2 * pi) * (real k / real n)" by simp
  ultimately show ?thesis unfolding e by simp
qed

lemma full_turn: "0 < n \<Longrightarrow> real n * (2 * pi / real n) = 2 * pi"
  by simp

lemma on_grid_draw:
  assumes "on_grid f s"
  shows "on_grid f (draw f t s)"
proof -
  from assms obtain k where k: "k < length f" "time s = real k * dt f" "lengthL (path s) = int k"
    by (auto simp: on_grid_def)
  show ?thesis
  proof (cases "processed t s")
    case False
    with k show ?thesis by (auto simp: on_grid_def time_draw path_draw)
  next
    case True
    show ?thesis
    proof (cases "Suc k = length f")
      case wrap: True
      then have w: "2 * pi \<le> time s + dt f"
        using wrap_iff[OF k(1)] k(2) by (simp add: dt_def)
      have "time s + dt f = real (Suc k) * dt f"
        using k(2) by (simp add: algebra_simps)
      also have "\<dots> = 2 * pi"
        unfolding wrap dt_def using k(1) by (intro full_turn) auto
      finally have "time s + dt f = 2 * pi" .
      then have "time (draw f t s) = 0" using True w by (simp add: time_draw js_rem_self)
      moreover have "lengthL (path (draw f t s)) = 0"
        using True w by (simp add: path_draw lengthL_clear)
      ultimately show ?thesis using k(1) by (auto simp: on_grid_def intro!: exI[of _ 0])
    next
      case nowrap: False
      then have w: "\<not> 2 * pi \<le> time s + dt f"
        using wrap_iff[OF k(1)] k(2) by (simp add: dt_def)
      have "time (draw f t s) = real (Suc k) * dt f"
        using True w k(2) by (simp add: time_draw algebra_simps)
      moreover have "lengthL (path (draw f t s)) = int (Suc k)"
        using True w k(3) by (simp add: path_draw lengthL_prepend)
      moreover have "Suc k < length f" using nowrap k(1) by simp
      ultimately show ?thesis unfolding on_grid_def by blast
    qed
  qed
qed

lemma on_grid_resizeCanvas: "f \<noteq> [] \<Longrightarrow> on_grid f (resizeCanvas s)"
  by (auto simp: on_grid_def fields_resizeCanvas lengthL_clear intro!: exI[of _ 0])

lemma on_grid_pending_update: "on_grid f (s\<lparr> pending := P \<rparr>) = on_grid f s"
  by (simp add: on_grid_def)

lemma on_grid_click: "on_grid f (click s) = on_grid f s"
  by (simp add: on_grid_def click_def requestAnimationFrame_def Let_def)

lemma on_grid_step: "f \<noteq> [] \<Longrightarrow> on_grid f s \<Longrightarrow> on_grid f (step f e s)"
  by (cases e)
     (simp_all add: fire_callback_def fire_dispatch_def on_grid_draw on_grid_pending_update
        on_grid_resizeCanvas on_grid_click split: option.splits callback.splits)

lemma on_grid_run_events: "f \<noteq> [] \<Longrightarrow> on_grid f s \<Longrightarrow> on_grid f (run_events f es s)"
  by (induction es arbitrary: s) (simp_all add: on_grid_step)

lemma on_grid_reachable: "f \<noteq> [] \<Longrightarrow> on_grid f (run_events f es (start f))"
  by (simp add: on_grid_run_events start_def on_grid_resizeCanvas)

lemma on_grid_time:
  assumes "on_grid f s" shows "0 \<le> time s \<and> time s < 2 * pi"
proof -
  from assms obtain k where k: "k < length f" "time s = real k * dt f"
    by (auto simp: on_grid_def)
  show ?thesis using grid_time[OF k(1)] k(2) by (simp only: dt_def)
qed

lemma on_grid_length:
  "on_grid f s \<Longrightarrow> 0 \<le> lengthL (path s) \<and> lengthL (path s) < int (length f)"
  by (auto simp: on_grid_def)

section \<open>One request is pending\<close>

lemma one_pending_resizeCanvas_init: "one_pending (resizeCanvas (init f))"
  by (simp add: one_pending_def init_def fields_resizeCanvas pending_resizeCanvas)

lemma one_pending_resizeCanvas:
  assumes "one_pending s"
  shows "one_pending (resizeCanvas s)"
proof -
  from assms obtain h where h: "animationFrameId s = Some h" "h \<noteq> 0" "h \<le> lastHandle s"
    "\<And>h'. pending s h' = Some Draw \<longleftrightarrow> h' = h"
    unfolding one_pending_def by blast
  have "pending (resizeCanvas s) h' = Some Draw \<longleftrightarrow> h' = lastHandle s + 1" for h'
    using h by (simp add: pending_resizeCanvas)
  then show ?thesis
    unfolding one_pending_def by (simp add: fields_resizeCanvas)
qed

lemma one_pending_forget:
  assumes "one_pending s" and "pending s h = Some DispatchResize"
  shows "one_pending (s\<lparr> pending := (pending s)(h := None) \<rparr>)"
proof -
  from assms(1) obtain g where g: "animationFrameId s = Some g" "g \<noteq> 0" "g \<le> lastHandle s"
    "\<And>h'. pending s h' = Some Draw \<longleftrightarrow> h' = g"
    unfolding one_pending_def by blast
  from g(4)[of h] assms(2) have "h \<noteq> g" by auto
  then have "((pending s)(h := None)) h' = Some Draw \<longleftrightarrow> h' = g" for h'
    using g(4) by simp
  then show ?thesis
    unfolding one_pending_def using g by simp
qed

lemma one_pending_draw:
  assumes "one_pending s" and "pending s h = Some Draw"
  shows "one_pending (fire_callback f h t s)"
proof -
  from assms(1) obtain g where g: "animationFrameId s = Some g" "g \<noteq> 0" "g \<le> lastHandle s"
    "\<And>h'. pending s h' = Some Draw \<longleftrightarrow> h' = g"
    unfolding one_pending_def by blast
  from g(4) assms(2) have "h = g" by simp
  then have "pending (fire_callback f h t s) h' = Some Draw \<longleftrightarrow> h' = lastHandle s + 1" for h'
    using g by (simp add: fire_callback_def host_draw)
  then show ?thesis
    unfolding one_pending_def by (simp add: fire_callback_def host_draw)
qed

lemma one_pending_click:
  assumes "one_pending s"
  shows "one_pending (click s)"
proof -
  from assms obtain h where h: "animationFrameId s = Some h" "h \<noteq> 0" "h \<le> lastHandle s"
    "\<And>h'. pending s h' = Some Draw \<longleftrightarrow> h' = h"
    unfolding one_pending_def by blast
  have "pending (click s) h' = Some Draw \<longleftrightarrow> h' = h" for h'
    using h by (auto simp: click_def requestAnimationFrame_def Let_def)
  then show ?thesis
    unfolding one_pending_def using h
    by (simp add: click_def requestAnimationFrame_def Let_def)
qed

lemma one_pending_step:
  assumes "one_pending s"
  shows "one_pending (step f e s)"
proof (cases e)
  case (Tick h t)
  show ?thesis
  proof (cases "pending s h")
    case None
    with Tick assms show ?thesis by simp
  next
    case (Some cb)
    show ?thesis
    proof (cases cb)
      case Draw
      with Tick Some one_pending_draw[OF assms, of h f t] show ?thesis by simp
    next
      case DispatchResize
      with Tick Some one_pending_resizeCanvas[OF one_pending_forget[OF assms, of h]]
      show ?thesis by (simp add: fire_dispatch_def)
    qed
  qed
next
  case Resize
  with assms show ?thesis by (simp add: one_pending_resizeCanvas)
next
  case Click
  with assms show ?thesis by (simp add: one_pending_click)
qed

lemma one_pending_run_events: "one_pending s \<Longrightarrow> one_pending (run_events f es s)"
  by (induction es arbitrary: s) (simp_all add: one_pending_step)

section \<open>The animation claims\<close>

lemma start_fields:
  "time (start f) = 0" "lengthL (path (start f)) = 0" "lastFrameTime (start f) = 0"
  "pending (start f) = [1 \<mapsto> Draw]" "lastHandle (start f) = 1"
  "animationFrameId (start f) = Some 1"
  by (simp_all add: start_def fields_resizeCanvas pending_resizeCanvas lengthL_clear init_def)

lemma processed_simps:
  "processed t (s\<lparr> pending := P \<rparr>) = processed t s"
  by (simp add: processed_def)

lemma fire_fields:
  "time (fire_callback f h t s) = time (draw f t s)"
  "path (fire_callback f h t s) = path (draw f t s)"
  "lastFrameTime (fire_callback f h t s) = lastFrameTime (draw f t s)"
  "lastHandle (fire_callback f h t s) = lastHandle s + 1"
  "animationFrameId (fire_callback f h t s) = Some (lastHandle s + 1)"
  "pending (fire_callback f h t s) = (pending s)(h := None, lastHandle s + 1 \<mapsto> Draw)"
  by (simp_all add: fire_callback_def time_draw path_draw lastFrameTime_draw host_draw processed_simps)

text \<open>
  Claim C8. With \<open>N \<ge> 1\<close> descriptors, in every state \<open>s\<close> the animation reaches from
  start-up (so at the start of every frame step) \<open>time\<close> lies in \<open>[0, 2 pi)\<close>. A call of
  \<open>draw\<close> in \<open>s\<close> that passes the gate advances \<open>time\<close> by \<open>dt = 2 pi / N\<close>; when the
  advanced time reaches or passes \<open>2 pi\<close> it is reduced modulo \<open>2 pi\<close> and the trail is
  cleared in that same call, and otherwise the trail is the old one with one point
  prepended; a call that does not pass the gate changes neither.
\<close>

theorem time_invariant:
  assumes "fourier' \<noteq> []" and "s = run_events fourier' evs (start fourier')"
  shows "0 \<le> time s \<and> time s < 2 * pi \<and>
         dt fourier' = 2 * pi / real (length fourier') \<and>
         time (draw fourier' t s) =
           (if processed t s
            then (if 2 * pi \<le> time s + dt fourier'
                  then js_rem (time s + dt fourier') (2 * pi)
                  else time s + dt fourier')
            else time s) \<and>
         path (draw fourier' t s) =
           (if processed t s
            then (if 2 * pi \<le> time s + dt fourier'
                  then clear (path s)
                  else snd (prepend (epicycles fourier' (time s) (0, 0)) (path s)))
            else path s) \<and>
         lengthL (path (draw fourier' t s)) =
           (if processed t s
            then (if 2 * pi \<le> time s + dt fourier' then 0 else lengthL (path s) + 1)
            else lengthL (path s))"
proof -
  have "on_grid fourier' s" using assms by (simp add: on_grid_reachable)
  then have "0 \<le> time s \<and> time s < 2 * pi" by (rule on_grid_time)
  moreover have "dt fourier' = 2 * pi / real (length fourier')" by (simp add: dt_def)
  ultimately show ?thesis
    by (simp add: time_draw path_draw lengthL_clear lengthL_prepend)
qed

theorem time_invariant_witness:
  "two_still \<noteq> [] \<and>
   time (draw two_still 200 (run_events two_still [Tick 1 100] (start two_still))) = pi \<and>
   lengthL (path (draw two_still 200 (run_events two_still [Tick 1 100] (start two_still)))) = 1"
proof -
  let ?S = "run_events two_still [Tick 1 100] (start two_still)"
  have p: "processed 200 ?S"
    by (simp add: start_fields fire_fields lastFrameTime_draw processed_def animationSpeed_def)
  have t: "time ?S = 0"
    by (simp add: start_fields fire_fields time_draw processed_def animationSpeed_def)
  have l: "lengthL (path ?S) = 0"
    by (simp add: start_fields fire_fields path_draw processed_def animationSpeed_def)
  have d: "dt two_still = pi"
    by (simp add: dt_def)
  have nw: "\<not> 2 * pi \<le> time ?S + dt two_still"
    unfolding t d by simp
  have ne: "two_still \<noteq> []"
    by simp
  from time_invariant[OF ne refl, of "[Tick 1 100]" 200]
  have a: "time (draw two_still 200 ?S) =
             (if processed 200 ?S
              then (if 2 * pi \<le> time ?S + dt two_still
                    then js_rem (time ?S + dt two_still) (2 * pi)
                    else time ?S + dt two_still)
              else time ?S)"
    and b: "lengthL (path (draw two_still 200 ?S)) =
             (if processed 200 ?S
              then (if 2 * pi \<le> time ?S + dt two_still then 0 else lengthL (path ?S) + 1)
              else lengthL (path ?S))"
    by blast+
  show ?thesis
    unfolding a b if_P[OF p] if_not_P[OF nw] t d l by simp
qed


text \<open>
  Claim C10. With \<open>N \<ge> 1\<close> descriptors and exact arithmetic, in every state the animation
  reaches from start-up the trail holds at least 0 and at most \<open>N\<close> points, and a resize
  empties it.
\<close>

theorem trail_length_bounded:
  assumes "fourier' \<noteq> []" and "s = run_events fourier' evs (start fourier')"
  shows "0 \<le> lengthL (path s) \<and> lengthL (path s) \<le> int (length fourier') \<and>
         lengthL (path (resizeCanvas s)) = 0"
proof -
  have "on_grid fourier' s" using assms by (simp add: on_grid_reachable)
  from on_grid_length[OF this] show ?thesis
    by (simp add: fields_resizeCanvas lengthL_clear)
qed

theorem trail_length_bounded_witness:
  "two_still \<noteq> [] \<and>
   lengthL (path (run_events two_still [Tick 1 100, Tick 2 200] (start two_still))) = 1 \<and>
   lengthL (path (run_events two_still [Tick 1 100, Tick 2 200] (start two_still)))
     \<le> int (length two_still) \<and>
   lengthL (path (resizeCanvas
     (run_events two_still [Tick 1 100, Tick 2 200] (start two_still)))) = 0"
proof -
  let ?S = "run_events two_still [Tick 1 100, Tick 2 200] (start two_still)"
  have l: "lengthL (path ?S) = 1"
    by (simp add: start_fields fire_fields path_draw lastFrameTime_draw time_draw processed_def
          animationSpeed_def dt_def lengthL_prepend)
  have ne: "two_still \<noteq> []"
    by simp
  from trail_length_bounded[OF ne refl, of "[Tick 1 100, Tick 2 200]"] l ne
  show ?thesis by blast
qed

text \<open>
  Claim C9 says that a tick whose request was cancelled, should it fire, finds out that it
  is stale and leaves \<open>time\<close>, the trail and \<open>lastFrameTime\<close> alone. \<open>draw\<close> receives the
  timestamp only and makes no such check. Here the start-up request 1 is cancelled by a
  resize, the request 2 of the resize runs at timestamp 100 and leaves request 3 as the
  current one; if the callback of the cancelled request 1 ran at timestamp 200, it would
  move \<open>time\<close> from 0 to \<open>pi\<close>, put a point on the empty trail and set \<open>lastFrameTime\<close>.
\<close>

theorem stale_tick_mutates_state:
  "pending (run_events two_still [Resize, Tick 2 100] (start two_still)) 1 = None \<and>
   animationFrameId (run_events two_still [Resize, Tick 2 100] (start two_still)) = Some 3 \<and>
   time (run_events two_still [Resize, Tick 2 100] (start two_still)) = 0 \<and>
   time (fire_callback two_still 1 200
           (run_events two_still [Resize, Tick 2 100] (start two_still))) = pi \<and>
   lengthL (path (run_events two_still [Resize, Tick 2 100] (start two_still))) = 0 \<and>
   lengthL (path (fire_callback two_still 1 200
           (run_events two_still [Resize, Tick 2 100] (start two_still)))) = 1 \<and>
   lastFrameTime (run_events two_still [Resize, Tick 2 100] (start two_still)) = 100 \<and>
   lastFrameTime (fire_callback two_still 1 200
           (run_events two_still [Resize, Tick 2 100] (start two_still))) = 200"
  by (simp add: start_fields fire_fields fields_resizeCanvas pending_resizeCanvas path_draw
        lastFrameTime_draw time_draw processed_def animationSpeed_def dt_def lengthL_prepend
        lengthL_clear)

text \<open>
  After a click two requests are pending, and only the one for \<open>draw\<close> is recorded.
\<close>

lemma click_leaves_two_requests:
  "pending (run_events fourier' [Click] (start fourier')) 1 = Some Draw \<and>
   pending (run_events fourier' [Click] (start fourier')) 2 = Some DispatchResize \<and>
   animationFrameId (run_events fourier' [Click] (start fourier')) = Some 1"
  by (simp add: click_def requestAnimationFrame_def Let_def start_fields)

text \<open>
  Claim C9 as the code has it. The handler does not check for staleness: what \<open>draw\<close> does
  to \<open>time\<close>, the trail and \<open>lastFrameTime\<close> is decided by these three, the timestamp and
  the gate alone, whatever request is recorded or pending (the first four parts of the
  theorem, for every state \<open>s\<close>). The code keeps stale ticks of \<open>draw\<close> from existing
  instead. \<open>resizeCanvas\<close> cancels the request recorded in \<open>animationFrameId\<close> before it
  resets the state and then requests one frame for \<open>draw\<close>; every \<open>draw\<close> requests one
  frame for \<open>draw\<close>; the request of the click handler is for a callback that only
  dispatches a resize. So in every state reached from start-up by ticks, resizes and
  clicks, under a host that runs pending callbacks only, a request is recorded in
  \<open>animationFrameId\<close>, and \<open>draw\<close> is pending under a handle exactly when that handle is
  the recorded one (the last two parts).
\<close>

theorem draw_unchecked_and_pending_draw_is_current:
  "time (draw fourier' t s) =
     (if processed t s
      then (if 2 * pi \<le> time s + dt fourier'
            then js_rem (time s + dt fourier') (2 * pi)
            else time s + dt fourier')
      else time s) \<and>
   lengthL (path (draw fourier' t s)) =
     (if processed t s
      then (if 2 * pi \<le> time s + dt fourier' then 0 else lengthL (path s) + 1)
      else lengthL (path s)) \<and>
   lastFrameTime (draw fourier' t s) =
     (if processed t s \<or> lastFrameTime s = 0 then t else lastFrameTime s) \<and>
   processed t (s\<lparr> animationFrameId := a, pending := P, lastHandle := n \<rparr>) = processed t s \<and>
   animationFrameId (run_events fourier' evs (start fourier')) \<noteq> None \<and>
   (pending (run_events fourier' evs (start fourier')) h = Some Draw) =
     (animationFrameId (run_events fourier' evs (start fourier')) = Some h)"
proof -
  let ?S = "run_events fourier' evs (start fourier')"
  have "one_pending ?S"
    by (simp add: one_pending_run_events start_def one_pending_resizeCanvas_init)
  then obtain g where g: "animationFrameId ?S = Some g"
    "\<And>h'. pending ?S h' = Some Draw \<longleftrightarrow> h' = g"
    unfolding one_pending_def by blast
  have c5: "animationFrameId ?S \<noteq> None"
    unfolding g(1) by simp
  have c6: "(pending ?S h = Some Draw) = (animationFrameId ?S = Some h)"
    unfolding g(1) g(2) by auto
  have c4: "processed t (s\<lparr> animationFrameId := a, pending := P, lastHandle := n \<rparr>) =
      processed t s"
    by (simp add: processed_def)
  have c1: "time (draw fourier' t s) =
     (if processed t s
      then (if 2 * pi \<le> time s + dt fourier'
            then js_rem (time s + dt fourier') (2 * pi)
            else time s + dt fourier')
      else time s)"
    by (rule time_draw)
  have c2: "lengthL (path (draw fourier' t s)) =
     (if processed t s
      then (if 2 * pi \<le> time s + dt fourier' then 0 else lengthL (path s) + 1)
      else lengthL (path s))"
    by (simp add: path_draw lengthL_clear lengthL_prepend)
  have c3: "lastFrameTime (draw fourier' t s) =
     (if processed t s \<or> lastFrameTime s = 0 then t else lastFrameTime s)"
    by (rule lastFrameTime_draw)
  from c1 c2 c3 c4 c5 c6 show ?thesis by (intro conjI)
qed

section \<open>The scale of a frame\<close>

lemma overflow_at_gt: "2 ^ 1023 < overflow_at"
proof -
  have "(2::real) ^ 970 < 2 ^ 1023" by (rule power_strict_increasing) simp_all
  moreover have "(2::real) ^ 1024 = 2 * 2 ^ 1023" by (simp only: power_Suc[symmetric]) simp
  ultimately show ?thesis unfolding overflow_at_def by linarith
qed

lemma overflow_at_pos: "0 < overflow_at"
proof -
  have "(0::real) < 2 ^ 1023" by simp
  with overflow_at_gt show ?thesis by linarith
qed

lemma rounded_0: "rounded 0 = Fin 0"
  using overflow_at_pos by (simp add: rounded_def)

lemma rounded_nonneg: "0 \<le> r \<Longrightarrow> rounded r = (if overflow_at \<le> r then PInf else Fin r)"
  using overflow_at_pos by (simp add: rounded_def)

lemma rounded_small: "0 \<le> r \<Longrightarrow> r < 2 ^ 1023 \<Longrightarrow> rounded r = Fin r"
  using overflow_at_gt by (simp add: rounded_nonneg)

lemma bounds_Fin:
  "bounds pts (Fin a, Fin b, Fin c, Fin d) =
     (Fin (fold min (map fst pts) a), Fin (fold max (map fst pts) b),
      Fin (fold min (map snd pts) c), Fin (fold max (map snd pts) d))"
  by (induction pts arbitrary: a b c d) (auto simp: min_def max_def)

lemma bounds_nonempty:
  assumes "helloPath \<noteq> []"
  shows "bounds helloPath (PInf, NInf, PInf, NInf) =
     (Fin (Min (fst ` set helloPath)), Fin (Max (fst ` set helloPath)),
      Fin (Min (snd ` set helloPath)), Fin (Max (snd ` set helloPath)))"
proof -
  from assms obtain pt pts where e: "helloPath = pt # pts" by (cases helloPath) auto
  have "bounds helloPath (PInf, NInf, PInf, NInf) =
          bounds pts (Fin (fst pt), Fin (fst pt), Fin (snd pt), Fin (snd pt))"
    by (simp add: e)
  also have "\<dots> =
     (Fin (fold min (map fst pts) (fst pt)), Fin (fold max (map fst pts) (fst pt)),
      Fin (fold min (map snd pts) (snd pt)), Fin (fold max (map snd pts) (snd pt)))"
    by (rule bounds_Fin)
  also have "fold min (map fst pts) (fst pt) = Min (fst ` set helloPath)"
    by (simp add: e Min.set_eq_fold[symmetric])
  also have "fold max (map fst pts) (fst pt) = Max (fst ` set helloPath)"
    by (simp add: e Max.set_eq_fold[symmetric])
  also have "fold min (map snd pts) (snd pt) = Min (snd ` set helloPath)"
    by (simp add: e Min.set_eq_fold[symmetric])
  also have "fold max (map snd pts) (snd pt) = Max (snd ` set helloPath)"
    by (simp add: e Max.set_eq_fold[symmetric])
  finally show ?thesis .
qed

lemma design_sides:
  assumes "helloPath \<noteq> []"
  shows "designWidth helloPath = rounded (pathWidth helloPath)"
    and "designHeight helloPath = rounded (pathHeight helloPath)"
  by (simp_all add: designWidth_def designHeight_def pathWidth_def pathHeight_def
        bounds_nonempty[OF assms])

lemma path_sides_nonneg:
  assumes "helloPath \<noteq> []"
  shows "0 \<le> pathWidth helloPath" and "0 \<le> pathHeight helloPath"
  using assms by (simp_all add: pathWidth_def pathHeight_def)

text \<open>
  The quotient of a positive finite number by a side \<open>rounded r\<close> with \<open>r \<ge> 0\<close>: a finite
  number that is not negative, or \<open>Infinity\<close>.
\<close>

lemma quotient_cases:
  assumes "0 \<le> r" and "0 < v"
  shows "(\<exists>q. 0 \<le> q \<and> q < overflow_at \<and> js_div (Fin v) (rounded r) = Fin q) \<or>
         js_div (Fin v) (rounded r) = PInf"
proof (cases "overflow_at \<le> r")
  case True
  with assms overflow_at_pos show ?thesis by (simp add: rounded_nonneg)
next
  case False
  note small = this
  show ?thesis
  proof (cases "r = 0")
    case True
    with assms show ?thesis by (simp add: rounded_0)
  next
    case False
    with assms have "0 \<le> v / r" by simp
    with assms small False show ?thesis
      by (simp add: rounded_nonneg[of r] rounded_nonneg[of "v / r"])
  qed
qed

lemma quotient_zero_side: "0 < v \<Longrightarrow> js_div (Fin v) (rounded 0) = PInf"
  by (simp add: rounded_0)

lemma quotient_finite:
  assumes "0 < r" and "0 < v" and "v / r < 2 ^ 1023"
  shows "isFinite (js_div (Fin v) (rounded r))"
proof (cases "overflow_at \<le> r")
  case True
  with assms show ?thesis by (simp add: rounded_nonneg)
next
  case False
  moreover have "0 \<le> v / r" using assms by simp
  ultimately show ?thesis
    using assms by (simp add: rounded_nonneg[of r] rounded_small[of "v / r"])
qed

lemma times_0_9:
  assumes "0 \<le> q" and "q < overflow_at"
  shows "js_mul (Fin q) (Fin (9 / 10)) = Fin (q * (9 / 10))"
proof -
  have "q * (9 / 10) \<le> q" using assms by simp
  with assms have "0 \<le> q * (9 / 10)" "\<not> overflow_at \<le> q * (9 / 10)" by simp_all
  then show ?thesis by (simp add: rounded_nonneg)
qed

lemma scale_finite_iff:
  assumes x: "(\<exists>q. 0 \<le> q \<and> q < overflow_at \<and> sx = Fin q) \<or> sx = PInf"
      and y: "(\<exists>q. 0 \<le> q \<and> q < overflow_at \<and> sy = Fin q) \<or> sy = PInf"
  shows "isFinite (js_mul (Math_min sx sy) (Fin (9 / 10))) \<longleftrightarrow> isFinite sx \<or> isFinite sy"
proof -
  consider a b where "sx = Fin a" "sy = Fin b" "0 \<le> a" "a < overflow_at" "0 \<le> b" "b < overflow_at"
    | a where "sx = Fin a" "sy = PInf" "0 \<le> a" "a < overflow_at"
    | b where "sx = PInf" "sy = Fin b" "0 \<le> b" "b < overflow_at"
    | "sx = PInf" "sy = PInf"
    using x y by blast
  then show ?thesis
  proof cases
    case 1
    then have "0 \<le> min a b" "min a b < overflow_at" by simp_all
    from times_0_9[OF this] 1 show ?thesis by simp
  next
    case 2
    from times_0_9[OF 2(3,4)] 2 show ?thesis by simp
  next
    case 3
    from times_0_9[OF 3(3,4)] 3 show ?thesis by simp
  next
    case 4
    then show ?thesis by simp
  qed
qed

text \<open>
  Claim C3 as the code has it. The code clamps nothing: a side of the bounding box that is
  zero is divided by as the zero it is, and the quotient is \<open>Infinity\<close>. \<open>Math.min\<close> drops
  an infinite quotient when the other one is finite. So for a path that is not empty and a
  canvas of positive finite CSS size, the scale is finite exactly when at least one of the
  two quotients \<open>cssWidth / designWidth\<close> and \<open>cssHeight / designHeight\<close> is finite; and a
  quotient is finite when its side is not zero and the division does not overflow (the
  bound \<open>2^1023\<close> leaves room for the rounding of doubles).
\<close>

theorem scale_finite_iff_a_quotient_is:
  assumes "helloPath \<noteq> []" and "0 < w" and "0 < h"
  shows "(pathWidth helloPath = 0 \<longrightarrow>
            designWidth helloPath = Fin 0 \<and>
            js_div (Fin w) (designWidth helloPath) = PInf) \<and>
         (pathHeight helloPath = 0 \<longrightarrow>
            designHeight helloPath = Fin 0 \<and>
            js_div (Fin h) (designHeight helloPath) = PInf) \<and>
         (pathWidth helloPath \<noteq> 0 \<and> w / pathWidth helloPath < 2 ^ 1023 \<longrightarrow>
            isFinite (js_div (Fin w) (designWidth helloPath))) \<and>
         (pathHeight helloPath \<noteq> 0 \<and> h / pathHeight helloPath < 2 ^ 1023 \<longrightarrow>
            isFinite (js_div (Fin h) (designHeight helloPath))) \<and>
         (isFinite (scale helloPath (Fin w) (Fin h)) \<longleftrightarrow>
            isFinite (js_div (Fin w) (designWidth helloPath)) \<or>
            isFinite (js_div (Fin h) (designHeight helloPath)))"
proof -
  note d = design_sides[OF assms(1)]
  note n = path_sides_nonneg[OF assms(1)]
  have zw: "pathWidth helloPath = 0 \<longrightarrow>
      designWidth helloPath = Fin 0 \<and> js_div (Fin w) (designWidth helloPath) = PInf"
    using assms(2) by (simp add: d rounded_0)
  have zh: "pathHeight helloPath = 0 \<longrightarrow>
      designHeight helloPath = Fin 0 \<and> js_div (Fin h) (designHeight helloPath) = PInf"
    using assms(3) by (simp add: d rounded_0)
  have fw: "pathWidth helloPath \<noteq> 0 \<and> w / pathWidth helloPath < 2 ^ 1023 \<longrightarrow>
      isFinite (js_div (Fin w) (designWidth helloPath))"
    unfolding d using n(1) assms(2) quotient_finite[of "pathWidth helloPath" w] by auto
  have fh: "pathHeight helloPath \<noteq> 0 \<and> h / pathHeight helloPath < 2 ^ 1023 \<longrightarrow>
      isFinite (js_div (Fin h) (designHeight helloPath))"
    unfolding d using n(2) assms(3) quotient_finite[of "pathHeight helloPath" h] by auto
  have s: "isFinite (scale helloPath (Fin w) (Fin h)) \<longleftrightarrow>
      isFinite (js_div (Fin w) (designWidth helloPath)) \<or>
      isFinite (js_div (Fin h) (designHeight helloPath))"
    unfolding scale_def Let_def d
    by (rule scale_finite_iff) (rule quotient_cases[OF n(1) assms(2)], rule quotient_cases[OF n(2) assms(3)])
  from zw zh fw fh s show ?thesis by blast
qed


theorem scale_finite_iff_a_quotient_is_witness:
  "pathHeight [(0, 0), (10, 0)] = 0 \<and>
   designHeight [(0, 0), (10, 0)] = Fin 0 \<and>
   js_div (Fin 200) (designHeight [(0, 0), (10, 0)]) = PInf \<and>
   pathWidth [(0, 0), (10, 0)] \<noteq> 0 \<and>
   300 / pathWidth [(0, 0), (10, 0)] < 2 ^ 1023 \<and>
   isFinite (js_div (Fin 300) (designWidth [(0, 0), (10, 0)])) \<and>
   isFinite (scale [(0, 0), (10, 0)] (Fin 300) (Fin 200)) \<and>
   pathWidth [(0, 0), (0, 10)] = 0 \<and>
   designWidth [(0, 0), (0, 10)] = Fin 0 \<and>
   js_div (Fin 300) (designWidth [(0, 0), (0, 10)]) = PInf \<and>
   pathHeight [(0, 0), (0, 10)] \<noteq> 0 \<and>
   200 / pathHeight [(0, 0), (0, 10)] < 2 ^ 1023 \<and>
   isFinite (js_div (Fin 200) (designHeight [(0, 0), (0, 10)])) \<and>
   isFinite (scale [(0, 0), (0, 10)] (Fin 300) (Fin 200))"
proof -
  have aw: "pathWidth [(0, 0), (10, 0)] = 10" and ah: "pathHeight [(0, 0), (10, 0)] = 0"
    by (simp_all add: pathWidth_def pathHeight_def)
  have bw: "pathWidth [(0, 0), (0, 10)] = 0" and bh: "pathHeight [(0, 0), (0, 10)] = 10"
    by (simp_all add: pathWidth_def pathHeight_def)
  have small: "(300::real) / 10 < 2 ^ 1023" "(200::real) / 10 < 2 ^ 1023"
  proof -
    have "(2::real) ^ 5 \<le> 2 ^ 1023" by (rule power_increasing) simp_all
    then show "(300::real) / 10 < 2 ^ 1023" "(200::real) / 10 < 2 ^ 1023" by simp_all
  qed
  have a: "[(0, 0), (10, 0)] \<noteq> ([] :: (real \<times> real) list)"
    and b: "[(0, 0), (0, 10)] \<noteq> ([] :: (real \<times> real) list)"
    and w: "(0::real) < 300" and h: "(0::real) < 200"
    by simp_all
  from scale_finite_iff_a_quotient_is[OF a w h] scale_finite_iff_a_quotient_is[OF b w h]
  show ?thesis unfolding aw ah bw bh using small by simp
qed

text \<open>
  Claim C3 says that a side of length zero is clamped to a small positive number before
  the division, so that the scale is finite for every finite path. For the path of the one
  point \<open>(0, 0)\<close> both sides are exactly 0, and on a canvas of 300 by 200 the scale is
  \<open>Infinity\<close>.
\<close>

theorem degenerate_path_scale_not_finite:
  "designWidth [(0, 0)] = Fin 0 \<and> designHeight [(0, 0)] = Fin 0 \<and>
   scale [(0, 0)] (Fin 300) (Fin 200) = PInf"
  by (simp add: designWidth_def designHeight_def scale_def rounded_0)

text \<open>
  Two more runs of the scale. With one side zero the scale is finite, here 27. With both
  sides \<open>10^-307\<close> both divisions overflow and the scale is \<open>Infinity\<close>, although no side is
  zero.
\<close>

lemma scale_with_one_zero_side: "scale [(0, 0), (10, 0)] (Fin 300) (Fin 200) = Fin 27"
proof -
  have "(30::real) < 2 ^ 1023" "(27::real) < 2 ^ 1023"
  proof -
    have "(2::real) ^ 5 \<le> 2 ^ 1023" by (rule power_increasing) simp_all
    then show "(30::real) < 2 ^ 1023" "(27::real) < 2 ^ 1023" by simp_all
  qed
  then have "rounded 30 = Fin 30" "rounded 27 = Fin 27" "rounded 10 = Fin 10"
    by (simp_all add: rounded_small)
  then show ?thesis
    by (simp add: designWidth_def designHeight_def scale_def rounded_0)
qed

lemma scale_overflows:
  assumes "0 < e" and "e < 2 ^ 1023" and "overflow_at \<le> w / e" and "overflow_at \<le> h / e"
  shows "scale [(0, 0), (e, e)] (Fin w) (Fin h) = PInf"
proof -
  have r: "rounded e = Fin e" using assms by (simp add: rounded_small)
  have q: "rounded (w / e) = PInf" "rounded (h / e) = PInf"
    using assms by (simp_all add: rounded_def)
  show ?thesis
    using assms(1) by (simp add: designWidth_def designHeight_def scale_def r q)
qed

lemma scale_overflows_on_tiny_path:
  "scale [(0, 0), (1 / 10 ^ 307, 1 / 10 ^ 307)] (Fin 300) (Fin 200) = PInf"
proof (rule scale_overflows)
  show "(0::real) < 1 / 10 ^ 307" by simp
  have "(1::real) / 10 ^ 307 \<le> 1" by simp
  also have "(1::real) < 2 ^ 1023" by simp
  finally show "(1::real) / 10 ^ 307 < 2 ^ 1023" .
  have "(2::real) ^ 1024 \<le> 200 * 10 ^ 307" by simp
  then show "overflow_at \<le> 200 / (1 / 10 ^ 307)" "overflow_at \<le> 300 / (1 / 10 ^ 307)"
    by (simp_all add: overflow_at_def)
qed

section \<open>Roots of unity and polar form\<close>

lemma cis_turn_neq_1:
  assumes "m < N" "n < N" "m \<noteq> n"
  shows "cis (2 * pi * (real n - real m) / real N) \<noteq> 1"
proof
  assume "cis (2 * pi * (real n - real m) / real N) = 1"
  then have "cos (2 * pi * (real n - real m) / real N) = 1"
    by (simp add: complex_eq_iff)
  then obtain j :: int where j: "2 * pi * (real n - real m) / real N = real_of_int j * 2 * pi"
    unfolding cos_one_2pi_int by blast
  have N: "0 < real N" using assms by simp
  from j have "(2 * pi) * ((real n - real m) / real N) = (2 * pi) * real_of_int j"
    by (simp add: algebra_simps)
  then have "2 * pi = 0 \<or> (real n - real m) / real N = real_of_int j"
    by (simp only: mult_cancel_left)
  then have "(real n - real m) / real N = real_of_int j"
    by simp
  then have "real n - real m = real_of_int j * real N"
    using N by (simp add: field_simps)
  then have "real_of_int (int n - int m) = real_of_int (j * int N)"
    by simp
  then have e: "int n - int m = j * int N"
    by (simp only: of_int_eq_iff)
  have "\<bar>int n - int m\<bar> < int N" using assms by linarith
  then have "\<bar>j\<bar> * int N < 1 * int N" unfolding e by (simp add: abs_mult)
  then have "\<bar>j\<bar> < 1" using assms by (simp only: mult_less_cancel_right)
  then have "j = 0" by simp
  with e assms show False by simp
qed

lemma roots_of_unity_sum:
  assumes "m < N" "n < N"
  shows "(\<Sum>k<N. cis (2 * pi * real k * (real n - real m) / real N)) =
           (if m = n then of_nat N else 0)"
proof (cases "m = n")
  case True
  then show ?thesis by simp
next
  case False
  let ?w = "cis (2 * pi * (real n - real m) / real N)"
  have w: "?w \<noteq> 1" using assms False by (rule cis_turn_neq_1)
  have "(\<Sum>k<N. cis (2 * pi * real k * (real n - real m) / real N)) = (\<Sum>k<N. ?w ^ k)"
    by (rule sum.cong) (simp_all add: DeMoivre algebra_simps)
  also have "\<dots> = (?w ^ N - 1) / (?w - 1)"
    using w by (rule geometric_sum)
  also have "?w ^ N = cis (2 * pi * (real n - real m))"
    using assms by (simp add: DeMoivre)
  also have "\<dots> = 1"
    by (rule cis_multiple_2pi) simp
  finally show ?thesis using False by simp
qed

lemma polar_cos: "sqrt (a\<^sup>2 + b\<^sup>2) * cos (arctan (b / a)) = \<bar>a\<bar>" if "a \<noteq> 0" for a b :: real
proof -
  have "1 + (b / a)\<^sup>2 = (a\<^sup>2 + b\<^sup>2) / a\<^sup>2"
    using that by (simp add: field_simps power_divide)
  then have "sqrt (1 + (b / a)\<^sup>2) = sqrt (a\<^sup>2 + b\<^sup>2) / \<bar>a\<bar>"
    by (simp add: real_sqrt_divide)
  moreover have "sqrt (a\<^sup>2 + b\<^sup>2) \<noteq> 0" using that by (simp add: sum_power2_eq_zero_iff)
  ultimately show ?thesis using that by (simp add: cos_arctan)
qed

lemma polar_sin: "sqrt (a\<^sup>2 + b\<^sup>2) * sin (arctan (b / a)) = \<bar>a\<bar> * (b / a)" if "a \<noteq> 0" for a b :: real
proof -
  have "1 + (b / a)\<^sup>2 = (a\<^sup>2 + b\<^sup>2) / a\<^sup>2"
    using that by (simp add: field_simps power_divide)
  then have "sqrt (1 + (b / a)\<^sup>2) = sqrt (a\<^sup>2 + b\<^sup>2) / \<bar>a\<bar>"
    by (simp add: real_sqrt_divide)
  moreover have "sqrt (a\<^sup>2 + b\<^sup>2) \<noteq> 0" using that by (simp add: sum_power2_eq_zero_iff)
  ultimately show ?thesis using that by (simp add: sin_arctan)
qed

lemma turn_angle_diff: "- (2 * pi * real k * real m / real N) + real k * (2 * pi * real n / real N) = 2 * pi * real k * (real n - real m) / real N"
  by (simp add: right_diff_distrib diff_divide_distrib)

lemma cis_shift:
  fixes z :: complex
  shows "z * cis (- (2 * pi * real k * real m / real N)) * cis (real k * (2 * pi * real n / real N)) = z * cis (2 * pi * real k * (real n - real m) / real N)"
  by (simp only: mult.assoc[of z] cis_mult turn_angle_diff)

lemma shifted_coefficient_sum:
  fixes Z :: "nat \<Rightarrow> complex"
  shows "(\<Sum>m<N. Z m * cis (- (2 * pi * real k * real m / real N))) / of_nat N * cis (real k * (2 * pi * real n / real N))
     = (\<Sum>m<N. Z m * cis (2 * pi * real k * (real n - real m) / real N)) / of_nat N"
proof -
  have "(\<Sum>m<N. Z m * cis (- (2 * pi * real k * real m / real N))) / of_nat N * cis (real k * (2 * pi * real n / real N))
     = (\<Sum>m<N. Z m * cis (- (2 * pi * real k * real m / real N)) * cis (real k * (2 * pi * real n / real N))) / of_nat N"
    by (simp add: sum_distrib_right)
  also have "\<dots> = (\<Sum>m<N. Z m * cis (2 * pi * real k * (real n - real m) / real N)) / of_nat N"
    by (simp only: cis_shift)
  finally show ?thesis .
qed

section \<open>What the transform computes\<close>

lemma dft_inner_sum:
  "dft_inner x k n (a, b) =
     (a + (\<Sum>m = n..<length x.
             re (x ! m) * cos (2 * pi * real k * real m / real (length x)) +
             im (x ! m) * sin (2 * pi * real k * real m / real (length x))),
      b + (\<Sum>m = n..<length x.
             - re (x ! m) * sin (2 * pi * real k * real m / real (length x)) +
             im (x ! m) * cos (2 * pi * real k * real m / real (length x))))"
proof (induction "length x - n" arbitrary: n a b)
  case 0
  then have "\<not> n < length x" by simp
  then show ?case by (simp add: dft_inner.simps[of x k n])
next
  case (Suc d)
  then have n: "n < length x" and d: "d = length x - Suc n" by simp_all
  show ?case
    using n by (simp add: dft_inner.simps[of x k n] Let_def Suc.hyps(1)[OF d]
        sum.atLeast_Suc_lessThan[OF n])
qed

lemma dft_outer_map: "dft_outer x k X = X @ map (descriptor_at x) [k..<length x]"
proof (induction "length x - k" arbitrary: k X)
  case 0
  then have "\<not> k < length x" by simp
  then show ?case by (simp add: dft_outer.simps[of x k])
next
  case (Suc d)
  then have k: "k < length x" and d: "d = length x - Suc k" by simp_all
  show ?case
    using k by (simp add: dft_outer.simps[of x k] Let_def split_beta Suc.hyps(1)[OF d]
        upt_conv_Cons[OF k] descriptor_at_def)
qed

lemma dft_map: "dft x = map (descriptor_at x) [0..<length x]"
  by (simp add: dft_def dft_outer_map)

lemma length_dft: "length (dft x) = length x"
  by (simp add: dft_map)

lemma nth_dft: "k < length x \<Longrightarrow> dft x ! k = descriptor_at x k"
  by (simp add: dft_map)

text \<open>
  Claim C1. For \<open>N \<ge> 1\<close> points, \<open>dft\<close> returns \<open>N\<close> descriptors, and the one at index
  \<open>k < N\<close> has \<open>re = (1/N) \<Sum>\<^sub>n (x\<^sub>n cos(2 pi k n / N) + y\<^sub>n sin(2 pi k n / N))\<close>,
  \<open>im = (1/N) \<Sum>\<^sub>n (- x\<^sub>n sin(2 pi k n / N) + y\<^sub>n cos(2 pi k n / N))\<close>,
  \<open>amp = sqrt(re\<^sup>2 + im\<^sup>2)\<close>, \<open>phase = atan2(im, re)\<close> and \<open>freq = k\<close>, where \<open>x\<^sub>n\<close> and
  \<open>y\<^sub>n\<close> are the fields \<open>re\<close> and \<open>im\<close> of the \<open>n\<close>-th point. The function reads its
  argument and builds a new array; it has no other effect.
\<close>

theorem dft_formula:
  assumes "k < length x"
  shows "length (dft x) = length x \<and>
         re (dft x ! k) =
           (1 / real (length x)) *
           (\<Sum>n<length x.
              re (x ! n) * cos (2 * pi * real k * real n / real (length x)) +
              im (x ! n) * sin (2 * pi * real k * real n / real (length x))) \<and>
         im (dft x ! k) =
           (1 / real (length x)) *
           (\<Sum>n<length x.
              - re (x ! n) * sin (2 * pi * real k * real n / real (length x)) +
              im (x ! n) * cos (2 * pi * real k * real n / real (length x))) \<and>
         amp (dft x ! k) = sqrt ((re (dft x ! k))\<^sup>2 + (im (dft x ! k))\<^sup>2) \<and>
         phase (dft x ! k) = Math_atan2 (im (dft x ! k)) (re (dft x ! k)) \<and>
         freq (dft x ! k) = k"
  using assms
  by (simp add: length_dft nth_dft descriptor_at_def Let_def dft_inner_sum Math_hypot_def
      atLeast0LessThan)

theorem dft_formula_witness:
  "length (dft square10) = 4 \<and> re (dft square10 ! 0) = 5 \<and> im (dft square10 ! 0) = 5 \<and>
   freq (dft square10 ! 0) = 0"
proof -
  have k: "0 < length square10" by simp
  from dft_formula[OF k] show ?thesis
    by (simp add: eval_nat_numeral lessThan_Suc)
qed

section \<open>The chain of vectors redraws the path\<close>

lemma epicycles_sum:
  "epicycles ds t (x, y) =
     (x + (\<Sum>d\<leftarrow>ds. amp d * cos (real (freq d) * t + phase d)),
      y + (\<Sum>d\<leftarrow>ds. amp d * sin (real (freq d) * t + phase d)))"
  by (induction ds arbitrary: x y) (simp_all add: Let_def algebra_simps)

lemma epicycles_sort:
  "epicycles (sort_key g ds) t (x, y) = epicycles ds t (x, y)"
proof -
  have "(\<Sum>d\<leftarrow>sort_key g ds. f d) = (\<Sum>d\<leftarrow>ds. f d)" for f :: "descriptor \<Rightarrow> real"
  proof -
    have "(\<Sum>d\<leftarrow>sort_key g ds. f d) = sum_mset (image_mset f (mset (sort_key g ds)))"
      by (simp flip: sum_mset_sum_list)
    also have "\<dots> = (\<Sum>d\<leftarrow>ds. f d)"
      by (simp add: sum_mset_sum_list flip: mset_map)
    finally show ?thesis .
  qed
  then show ?thesis by (simp add: epicycles_sum)
qed

lemma hypot_atan2:
  "Math_hypot a b * cos (Math_atan2 b a) = a"
  "Math_hypot a b * sin (Math_atan2 b a) = b"
proof -
  consider "0 < a" | "a < 0" "0 \<le> b" | "a < 0" "b < 0" | "a = 0" "0 < b" | "a = 0" "b < 0"
    | "a = 0" "b = 0"
    by linarith
  then have "Math_hypot a b * cos (Math_atan2 b a) = a \<and> Math_hypot a b * sin (Math_atan2 b a) = b"
  proof cases
    case 1
    then show ?thesis
      using polar_cos[of a b] polar_sin[of a b] by (simp add: Math_hypot_def Math_atan2_def)
  next
    case 2
    then show ?thesis
      using polar_cos[of a b] polar_sin[of a b] by (simp add: Math_hypot_def Math_atan2_def)
  next
    case 3
    then show ?thesis
      using polar_cos[of a b] polar_sin[of a b]
      by (simp add: Math_hypot_def Math_atan2_def cos_diff sin_diff)
  next
    case 4
    then show ?thesis by (simp add: Math_hypot_def Math_atan2_def)
  next
    case 5
    then show ?thesis by (simp add: Math_hypot_def Math_atan2_def)
  next
    case 6
    then show ?thesis by (simp add: Math_hypot_def Math_atan2_def)
  qed
  then show "Math_hypot a b * cos (Math_atan2 b a) = a" "Math_hypot a b * sin (Math_atan2 b a) = b"
    by simp_all
qed

lemma descriptor_at_coefficient:
  "Complex (re (descriptor_at x k)) (im (descriptor_at x k)) = coefficient x k"
  by (simp add: complex_eq_iff descriptor_at_def Let_def dft_inner_sum coefficient_def as_complex_def
      atLeast0LessThan algebra_simps)

lemma arm_complex:
  "Complex (amp (descriptor_at x k) * cos (real (freq (descriptor_at x k)) * t + phase (descriptor_at x k)))
           (amp (descriptor_at x k) * sin (real (freq (descriptor_at x k)) * t + phase (descriptor_at x k)))
     = coefficient x k * cis (real k * t)"
proof -
  let ?d = "descriptor_at x k"
  have a: "amp ?d * cos (phase ?d) = re ?d" "amp ?d * sin (phase ?d) = im ?d"
    by (simp_all add: descriptor_at_def Let_def hypot_atan2)
  have f: "freq ?d = k" by (simp add: descriptor_at_def Let_def)
  have "amp ?d * cos (real k * t + phase ?d) =
          cos (real k * t) * (amp ?d * cos (phase ?d)) - sin (real k * t) * (amp ?d * sin (phase ?d))"
    by (simp add: cos_add algebra_simps)
  moreover have "amp ?d * sin (real k * t + phase ?d) =
          sin (real k * t) * (amp ?d * cos (phase ?d)) + cos (real k * t) * (amp ?d * sin (phase ?d))"
    by (simp add: sin_add algebra_simps)
  ultimately have "Complex (amp ?d * cos (real k * t + phase ?d)) (amp ?d * sin (real k * t + phase ?d))
      = Complex (re ?d) (im ?d) * cis (real k * t)"
    unfolding a by (simp add: complex_eq_iff algebra_simps)
  then show ?thesis unfolding f descriptor_at_coefficient .
qed

lemma inverse_transform:
  assumes "n < length x"
  shows "(\<Sum>k<length x. coefficient x k * cis (real k * (2 * pi * real n / real (length x)))) = as_complex x n"
proof -
  let ?N = "length x"
  have N: "of_nat ?N \<noteq> (0 :: complex)" using assms by auto
  have "(\<Sum>k<?N. coefficient x k * cis (real k * (2 * pi * real n / real ?N))) =
        (\<Sum>k<?N. \<Sum>m<?N. as_complex x m * cis (2 * pi * real k * (real n - real m) / real ?N)) / of_nat ?N"
    unfolding coefficient_def shifted_coefficient_sum by (simp only: sum_divide_distrib)
  also have "(\<Sum>k<?N. \<Sum>m<?N. as_complex x m * cis (2 * pi * real k * (real n - real m) / real ?N)) =
             (\<Sum>m<?N. as_complex x m * (\<Sum>k<?N. cis (2 * pi * real k * (real n - real m) / real ?N)))"
    by (subst sum.swap) (simp add: sum_distrib_left)
  also have "\<dots> = (\<Sum>m<?N. as_complex x m * (if m = n then of_nat ?N else 0))"
    by (intro sum.cong refl) (simp add: roots_of_unity_sum assms)
  also have "\<dots> = (\<Sum>m<?N. if m = n then as_complex x m * of_nat ?N else 0)"
    by (intro sum.cong refl) simp
  also have "\<dots> = as_complex x n * of_nat ?N"
    using assms by (simp add: sum.delta)
  finally show ?thesis using N by simp
qed


text \<open>
  Claim C2. In exact arithmetic, for \<open>N \<ge> 1\<close> points and every index \<open>n < N\<close>, the loop
  of \<open>draw\<close> that adds up \<open>amp cos(freq t + phase)\<close> and \<open>amp sin(freq t + phase)\<close> over all
  descriptors of the transform, at the time \<open>t = 2 pi n / N\<close> and from the origin, ends at
  the \<open>n\<close>-th point. This holds for the descriptors in the order \<open>dft\<close> returns them and
  in the order the animation sorts them.
\<close>

theorem dft_round_trip:
  assumes "n < length x"
  shows "epicycles (dft x) (2 * pi * real n / real (length x)) (0, 0) = (re (x ! n), im (x ! n)) \<and>
         epicycles (sort_key (\<lambda>d. - amp d) (dft x)) (2 * pi * real n / real (length x)) (0, 0)
           = (re (x ! n), im (x ! n))"
proof -
  let ?t = "2 * pi * real n / real (length x)"
  let ?c = "\<lambda>d. amp d * cos (real (freq d) * ?t + phase d)"
  let ?s = "\<lambda>d. amp d * sin (real (freq d) * ?t + phase d)"
  have c: "(\<Sum>d\<leftarrow>dft x. ?c d) = (\<Sum>k<length x. ?c (descriptor_at x k))"
    by (simp add: dft_map comp_def interv_sum_list_conv_sum_set_nat atLeast0LessThan)
  have s: "(\<Sum>d\<leftarrow>dft x. ?s d) = (\<Sum>k<length x. ?s (descriptor_at x k))"
    by (simp add: dft_map comp_def interv_sum_list_conv_sum_set_nat atLeast0LessThan)
  have "Complex (\<Sum>k<length x. ?c (descriptor_at x k)) (\<Sum>k<length x. ?s (descriptor_at x k)) =
        (\<Sum>k<length x. Complex (?c (descriptor_at x k)) (?s (descriptor_at x k)))"
    by (simp add: complex_eq_iff)
  also have "\<dots> = (\<Sum>k<length x. coefficient x k * cis (real k * ?t))"
    by (simp only: arm_complex)
  also have "\<dots> = as_complex x n"
    using assms by (rule inverse_transform)
  finally have r: "(\<Sum>k<length x. ?c (descriptor_at x k)) = re (x ! n)"
    "(\<Sum>k<length x. ?s (descriptor_at x k)) = im (x ! n)"
    by (simp_all add: as_complex_def)
  have "epicycles (dft x) ?t (0, 0) = (0 + (\<Sum>d\<leftarrow>dft x. ?c d), 0 + (\<Sum>d\<leftarrow>dft x. ?s d))"
    by (rule epicycles_sum)
  also have "\<dots> = (re (x ! n), im (x ! n))"
    unfolding c s r by simp
  finally have e: "epicycles (dft x) ?t (0, 0) = (re (x ! n), im (x ! n))" .
  show ?thesis unfolding epicycles_sort e by simp
qed

theorem dft_round_trip_witness:
  "epicycles (dft square10) (2 * pi * 1 / 4) (0, 0) = (10, 0) \<and>
   epicycles (sort_key (\<lambda>d. - amp d) (dft square10)) (2 * pi * 1 / 4) (0, 0) = (10, 0)"
  using dft_round_trip[of 1 square10] by simp

end
